theory Spec2Isabelle
  imports Complex_Main
begin

section \<open>Data model (types.ts, constants.ts, convex/schema.ts)\<close>

text \<open>
  The records follow \<^verbatim>\<open>participantValidator\<close>, \<^verbatim>\<open>matchValidator\<close> and
  \<^verbatim>\<open>standingValidator\<close> of convex/schema.ts and the \<^verbatim>\<open>AppState\<close> object of App.tsx.
  The fields \<^verbatim>\<open>id\<close> and \<^verbatim>\<open>name\<close> occur in several objects, so they carry the
  object's initial here (\<open>p_id\<close>, \<open>m_id\<close>, \<open>s_id\<close>). JavaScript numbers that hold
  identifiers, seeds, indices and counters are integers; scores and points are rationals
  (the points table uses 0.5 and 0.25). \<^verbatim>\<open>null\<close> is \<open>None\<close>.
\<close>

datatype AppPhase = CHAMPIONSHIP_VIEW | QUALIFICATION | BRACKET | FINISHED

record Participant =
  p_id :: int
  p_name :: string
  score :: "rat option"
  seed :: int

record Match =
  m_id :: int
  roundIndex :: int
  matchIndex :: int
  participant1 :: "Participant option"
  participant2 :: "Participant option"
  winner :: "Participant option"
  nextMatchId :: "int option"

type_synonym BracketData = "Match list list"

record ChampionshipStanding =
  s_id :: int
  s_name :: string
  pointsPerCompetition :: "rat list"

record AppState =
  phase :: AppPhase
  standings :: "ChampionshipStanding list"
  competitionParticipants :: "Participant list"
  bracket :: BracketData
  thirdPlaceMatch :: "Match option"
  totalCompetitions :: "int option"
  competitionsHeld :: nat

definition getInitialState :: AppState where
  "getInitialState =
     \<lparr>phase = CHAMPIONSHIP_VIEW, standings = [], competitionParticipants = [], bracket = [],
      thirdPlaceMatch = None, totalCompetitions = None, competitionsHeld = 0\<rparr>"

section \<open>App.tsx: handleStartCompetition\<close>

definition handleStartCompetition :: "AppState \<Rightarrow> AppState" where
  "handleStartCompetition prev =
     prev\<lparr>competitionParticipants :=
              map (\<lambda>p. \<lparr>p_id = s_id p, p_name = s_name p, score = None, seed = 0\<rparr>) (standings prev),
            bracket := [],
            thirdPlaceMatch := None,
            phase := QUALIFICATION\<rparr>"

section \<open>App.tsx: handleStartBracket\<close>

text \<open>
  \<^verbatim>\<open>allParticipants.filter(p => p.score !== null && p.score > 0)
     .sort((a, b) => b.score - a.score).map((p, index) => ({ ...p, seed: index + 1 }))\<close>.
  \<^verbatim>\<open>Array.prototype.sort\<close> is stable, as is \<open>sort_key\<close> (an insertion sort); the key
  \<open>- score\<close> gives the descending order of the comparator.
\<close>

definition qualifies :: "Participant \<Rightarrow> bool" where
  "qualifies p = (case score p of None \<Rightarrow> False | Some x \<Rightarrow> x > 0)"

definition scoreOf :: "Participant \<Rightarrow> rat" where
  "scoreOf p = (case score p of None \<Rightarrow> 0 | Some x \<Rightarrow> x)"

definition sortByScoreDesc :: "Participant list \<Rightarrow> Participant list" where
  "sortByScoreDesc ps = sort_key (\<lambda>p. - scoreOf p) ps"

definition qualifiedParticipants :: "Participant list \<Rightarrow> Participant list" where
  "qualifiedParticipants allParticipants =
     map (\<lambda>(index, p). p\<lparr>seed := int index + 1\<rparr>)
       (enumerate 0 (sortByScoreDesc (filter qualifies allParticipants)))"

definition MIN_PARTICIPANTS :: nat where
  "MIN_PARTICIPANTS = 2"

text \<open>
  \<^verbatim>\<open>Math.ceil(Math.log2(n))\<close> and \<^verbatim>\<open>Math.log2(bracketSize)\<close>, read on the integers:
  the least \<open>k\<close> with \<open>n \<le> 2 ^ k\<close>, and the exponent of a power of two.
\<close>

fun ceil_log2 :: "nat \<Rightarrow> nat" where
  "ceil_log2 n = (if n \<le> 1 then 0 else Suc (ceil_log2 ((n + 1) div 2)))"

fun log2 :: "nat \<Rightarrow> nat" where
  "log2 n = (if n \<le> 1 then 0 else Suc (log2 (n div 2)))"

definition bracketSizeOf :: "nat \<Rightarrow> nat" where
  "bracketSizeOf n = 2 ^ ceil_log2 n"

text \<open>
  \<^verbatim>\<open>qualifiedParticipants.forEach(p => participantMap.set(p.seed, p))\<close>: a later
  \<^verbatim>\<open>set\<close> of the same key overwrites.
\<close>

definition participantMapOf :: "Participant list \<Rightarrow> (int \<rightharpoonup> Participant)" where
  "participantMapOf ps = fold (\<lambda>p m. m(seed p \<mapsto> p)) ps Map.empty"

text \<open>
  The seeding loop:
  \<^verbatim>\<open>let seeds = [1];
  while (seeds.length < bracketSize) {
    const nextSeeds = []; const currentBracketSize = seeds.length * 2;
    for (const seed of seeds) { nextSeeds.push(seed); nextSeeds.push(currentBracketSize + 1 - seed); }
    seeds = nextSeeds; }\<close>
  On an empty \<^verbatim>\<open>seeds\<close> the loop would not end, so it is a partial function: \<open>None\<close>
  is "does not return".
\<close>

definition nextSeeds :: "int list \<Rightarrow> int list" where
  "nextSeeds seeds = concat (map (\<lambda>s. [s, int (length seeds * 2) + 1 - s]) seeds)"

partial_function (option) seedLoop :: "nat \<Rightarrow> int list \<Rightarrow> int list option" where
  "seedLoop bracketSize seeds =
     (if length seeds < bracketSize then seedLoop bracketSize (nextSeeds seeds) else Some seeds)"

definition finalSeedOrder :: "nat \<Rightarrow> int list option" where
  "finalSeedOrder bracketSize = seedLoop bracketSize [1]"

text \<open>
  The first round: \<^verbatim>\<open>for (let i = 0; i < finalSeedOrder.length; i += 2)\<close>, reading
  \<^verbatim>\<open>finalSeedOrder[i]\<close> and \<^verbatim>\<open>finalSeedOrder[i + 1]\<close>; the match pushed at \<open>i\<close> has
  \<^verbatim>\<open>id: matchIdCounter++\<close> and \<^verbatim>\<open>matchIndex: i / 2\<close>, both the number \<open>k\<close> of matches
  pushed before it. A read past the end is \<^verbatim>\<open>undefined\<close>, which the map does not hold.
\<close>

definition firstRoundMatch :: "int \<Rightarrow> Participant option \<Rightarrow> Participant option \<Rightarrow> Match" where
  "firstRoundMatch k p1 p2 =
     \<lparr>m_id = k, roundIndex = 0, matchIndex = k, participant1 = p1, participant2 = p2,
      winner = (case (p1, p2) of
                  (Some a, None) \<Rightarrow> Some a
                | (None, Some b) \<Rightarrow> Some b
                | _ \<Rightarrow> None),
      nextMatchId = None\<rparr>"

fun firstRoundFrom :: "(int \<rightharpoonup> Participant) \<Rightarrow> int \<Rightarrow> int list \<Rightarrow> Match list" where
  "firstRoundFrom pm k [] = []"
| "firstRoundFrom pm k [a] = [firstRoundMatch k (pm a) None]"
| "firstRoundFrom pm k (a # b # rest) = firstRoundMatch k (pm a) (pm b) # firstRoundFrom pm (k + 1) rest"

text \<open>
  The later rounds. \<^verbatim>\<open>previousRound[i]?.winner\<close> is \<^verbatim>\<open>undefined\<close> out of range
  (\<open>None\<close> after \<^verbatim>\<open>|| null\<close>); \<^verbatim>\<open>currentRound[Math.floor(i / 2)].id\<close> throws a
  TypeError out of range, which \<open>linkFrom\<close> returns as \<open>None\<close>.
\<close>

definition nthOpt :: "'a list \<Rightarrow> nat \<Rightarrow> 'a option" where
  "nthOpt xs i = (if i < length xs then Some (xs ! i) else None)"

definition winnerAt :: "Match list \<Rightarrow> nat \<Rightarrow> Participant option" where
  "winnerAt rnd i = (case nthOpt rnd i of None \<Rightarrow> None | Some m \<Rightarrow> winner m)"

definition orderBySeed ::
  "Participant option \<Rightarrow> Participant option \<Rightarrow> Participant option \<times> Participant option" where
  "orderBySeed p1 p2 =
     (case (p1, p2) of
        (Some a, Some b) \<Rightarrow> if seed a > seed b then (Some b, Some a) else (Some a, Some b)
      | _ \<Rightarrow> (p1, p2))"

definition laterRoundMatch :: "int \<Rightarrow> int \<Rightarrow> Match list \<Rightarrow> nat \<Rightarrow> Match" where
  "laterRoundMatch matchIdCounter r previousRound i =
     (let (p1, p2) = orderBySeed (winnerAt previousRound (i * 2)) (winnerAt previousRound (i * 2 + 1))
      in \<lparr>m_id = matchIdCounter + int i, roundIndex = r, matchIndex = int i,
          participant1 = p1, participant2 = p2, winner = None, nextMatchId = None\<rparr>)"

definition makeRound :: "int \<Rightarrow> int \<Rightarrow> nat \<Rightarrow> Match list \<Rightarrow> Match list" where
  "makeRound matchIdCounter r numMatchesInCurrentRound previousRound =
     map (laterRoundMatch matchIdCounter r previousRound) [0..<numMatchesInCurrentRound]"

fun linkFrom :: "nat \<Rightarrow> Match list \<Rightarrow> Match list \<Rightarrow> Match list option" where
  "linkFrom i [] currentRound = Some []"
| "linkFrom i (m # ms) currentRound =
     (case nthOpt currentRound (i div 2) of
        None \<Rightarrow> None
      | Some t \<Rightarrow>
          (case linkFrom (Suc i) ms currentRound of
             None \<Rightarrow> None
           | Some ms' \<Rightarrow> Some (m\<lparr>nextMatchId := Some (m_id t)\<rparr> # ms')))"

text \<open>
  \<^verbatim>\<open>for (let roundIndex = 1; roundIndex < numRounds; roundIndex++)\<close>: the first argument
  counts the iterations left. The result is the list of rounds from \<open>previousRound\<close> on,
  each with its links set. \<^verbatim>\<open>numMatchesInPreviousRound / 2\<close> is a division of a power
  of two that is at least 2 wherever the loop body runs, hence \<open>div\<close>.
\<close>

fun buildRounds :: "nat \<Rightarrow> int \<Rightarrow> int \<Rightarrow> nat \<Rightarrow> Match list \<Rightarrow> BracketData option" where
  "buildRounds 0 r matchIdCounter numMatchesInPreviousRound previousRound = Some [previousRound]"
| "buildRounds (Suc left) r matchIdCounter numMatchesInPreviousRound previousRound =
     (let numMatchesInCurrentRound = numMatchesInPreviousRound div 2;
          currentRound = makeRound matchIdCounter r numMatchesInCurrentRound previousRound
      in case linkFrom 0 previousRound currentRound of
           None \<Rightarrow> None
         | Some linked \<Rightarrow>
             map_option ((#) linked)
               (buildRounds left (r + 1) (matchIdCounter + int numMatchesInCurrentRound)
                  numMatchesInCurrentRound currentRound))"

datatype failure = Diverges | TypeError

definition buildBracket :: "Participant list \<Rightarrow> failure + BracketData" where
  "buildBracket qualified =
     (let bracketSize = bracketSizeOf (length qualified);
          participantMap = participantMapOf qualified
      in case finalSeedOrder bracketSize of
           None \<Rightarrow> Inl Diverges
         | Some order \<Rightarrow>
             (let firstRound = firstRoundFrom participantMap 0 order;
                  numRounds = log2 bracketSize
              in case buildRounds (numRounds - 1) 1 (int (length firstRound)) (bracketSize div 2) firstRound of
                   None \<Rightarrow> Inl TypeError
                 | Some newBracket \<Rightarrow> Inr newBracket))"

text \<open>
  The handler either alerts and returns without a call of \<^verbatim>\<open>setAppState\<close> (the state
  stays as it is), or sets the bracket and the phase. \<open>Inl\<close> is a handler that does not
  complete.
\<close>

datatype alert = InsufficientQualifiers

definition handleStartBracket ::
  "AppState \<Rightarrow> Participant list \<Rightarrow> failure + (alert option \<times> AppState)" where
  "handleStartBracket prev allParticipants =
     (let qualified = qualifiedParticipants allParticipants
      in if length qualified < MIN_PARTICIPANTS then Inr (Some InsufficientQualifiers, prev)
         else (case buildBracket qualified of
                 Inl e \<Rightarrow> Inl e
               | Inr newBracket \<Rightarrow> Inr (None, prev\<lparr>bracket := newBracket, phase := BRACKET\<rparr>)))"

section \<open>App.tsx: handleSetWinner\<close>

text \<open>
  \<^verbatim>\<open>for (...) { const foundMatch = newBracket[i].find(m => m.id === matchId); if (foundMatch) ... break }\<close>:
  the first match with this id of the first round that holds one. The handler mutates the
  object it found inside the deep copy; \<open>mutateInBracket\<close> replaces that same match.
\<close>

fun findInBracket :: "int \<Rightarrow> BracketData \<Rightarrow> Match option" where
  "findInBracket matchId [] = None"
| "findInBracket matchId (r # rs) =
     (case find (\<lambda>m. m_id m = matchId) r of
        Some m \<Rightarrow> Some m
      | None \<Rightarrow> findInBracket matchId rs)"

fun mutateFirst :: "int \<Rightarrow> (Match \<Rightarrow> Match) \<Rightarrow> Match list \<Rightarrow> Match list" where
  "mutateFirst matchId f [] = []"
| "mutateFirst matchId f (m # ms) =
     (if m_id m = matchId then f m # ms else m # mutateFirst matchId f ms)"

fun mutateInBracket :: "int \<Rightarrow> (Match \<Rightarrow> Match) \<Rightarrow> BracketData \<Rightarrow> BracketData" where
  "mutateInBracket matchId f [] = []"
| "mutateInBracket matchId f (r # rs) =
     (case find (\<lambda>m. m_id m = matchId) r of
        Some m \<Rightarrow> mutateFirst matchId f r # rs
      | None \<Rightarrow> r # mutateInBracket matchId f rs)"

text \<open>
  \<^verbatim>\<open>if (matchToUpdate.matchIndex % 2 === 0) nextMatch.participant1 = winner;
  else nextMatch.participant2 = winner;\<close> and then the swap that puts the smaller seed first.
\<close>

definition placeWinner :: "int \<Rightarrow> Participant \<Rightarrow> Match \<Rightarrow> Match" where
  "placeWinner idx w nextMatch =
     (let nm = (if idx mod 2 = 0 then nextMatch\<lparr>participant1 := Some w\<rparr>
                else nextMatch\<lparr>participant2 := Some w\<rparr>)
      in case (participant1 nm, participant2 nm) of
           (Some a, Some b) \<Rightarrow>
             if seed a > seed b then nm\<lparr>participant1 := Some b, participant2 := Some a\<rparr> else nm
         | _ \<Rightarrow> nm)"

text \<open>
  The \<^verbatim>\<open>else\<close> branch of the handler (lines 226 to 251): nothing happens unless the
  match is found and has no winner; there is no test of \<open>w\<close> against the two slots.
\<close>

definition resolveMatch :: "BracketData \<Rightarrow> int \<Rightarrow> Participant \<Rightarrow> BracketData" where
  "resolveMatch newBracket matchId w =
     (case findInBracket matchId newBracket of
        None \<Rightarrow> newBracket
      | Some matchToUpdate \<Rightarrow>
          if winner matchToUpdate \<noteq> None then newBracket
          else (let b1 = mutateInBracket matchId (\<lambda>m. m\<lparr>winner := Some w\<rparr>) newBracket
                in case nextMatchId matchToUpdate of
                     None \<Rightarrow> b1
                   | Some nid \<Rightarrow> mutateInBracket nid (placeWinner (matchIndex matchToUpdate) w) b1))"

definition findLoser :: "Match \<Rightarrow> Participant option" where
  "findLoser m =
     (case (participant1 m, participant2 m) of
        (Some a, Some b) \<Rightarrow>
          if (case winner m of Some w \<Rightarrow> p_id w = p_id a | None \<Rightarrow> False) then Some b else Some a
      | _ \<Rightarrow> None)"

definition thirdPlaceOf :: "Participant option \<Rightarrow> Participant option \<Rightarrow> Participant option \<Rightarrow> Match" where
  "thirdPlaceOf p1 p2 w =
     \<lparr>m_id = 999, roundIndex = - 1, matchIndex = 0, participant1 = p1, participant2 = p2,
      winner = w, nextMatchId = None\<rparr>"

definition semiFinalsOf :: "BracketData \<Rightarrow> Match list" where
  "semiFinalsOf newBracket = newBracket ! (length newBracket - 2)"

definition losersOf :: "Match list \<Rightarrow> Participant list" where
  "losersOf semiFinals = List.map_filter findLoser semiFinals"

text \<open>Lines 254 to 283; \<open>semiFinalsOf\<close> is read only where the bracket has two rounds or more.\<close>

definition synthesizeThirdPlace :: "BracketData \<Rightarrow> Match option \<Rightarrow> Match option" where
  "synthesizeThirdPlace newBracket third =
     (if length newBracket > 1 \<and> third = None then
        (let semiFinals = semiFinalsOf newBracket
         in if list_all (\<lambda>m. winner m \<noteq> None) semiFinals then
              (let losers = losersOf semiFinals
               in if length losers = 2 then
                    (if seed (losers ! 0) < seed (losers ! 1)
                     then Some (thirdPlaceOf (Some (losers ! 0)) (Some (losers ! 1)) None)
                     else Some (thirdPlaceOf (Some (losers ! 1)) (Some (losers ! 0)) None))
                  else if length losers = 1 then
                    Some (thirdPlaceOf (Some (losers ! 0)) None (Some (losers ! 0)))
                  else third)
            else third)
      else third)"

text \<open>\<^verbatim>\<open>newBracket[newBracket.length - 1]?.[0]\<close>\<close>

definition finalMatchOf :: "BracketData \<Rightarrow> Match option" where
  "finalMatchOf b = (if b = [] then None else nthOpt (last b) 0)"

definition isTournamentFinished :: "BracketData \<Rightarrow> Match option \<Rightarrow> bool" where
  "isTournamentFinished newBracket third =
     (case finalMatchOf newBracket of
        None \<Rightarrow> False
      | Some finalMatch \<Rightarrow>
          winner finalMatch \<noteq> None \<and> (case third of None \<Rightarrow> True | Some t \<Rightarrow> winner t \<noteq> None))"

definition handleSetWinner :: "AppState \<Rightarrow> int \<Rightarrow> Participant \<Rightarrow> AppState" where
  "handleSetWinner prev matchId w =
     (let (third1, newBracket) =
            (case thirdPlaceMatch prev of
               Some t \<Rightarrow>
                 if matchId = m_id t then (Some (t\<lparr>winner := Some w\<rparr>), bracket prev)
                 else (Some t, resolveMatch (bracket prev) matchId w)
             | None \<Rightarrow> (None, resolveMatch (bracket prev) matchId w));
          newThirdPlaceMatch = synthesizeThirdPlace newBracket third1;
          newPhase = (if isTournamentFinished newBracket newThirdPlaceMatch then FINISHED else phase prev)
      in prev\<lparr>bracket := newBracket, thirdPlaceMatch := newThirdPlaceMatch, phase := newPhase\<rparr>)"

section \<open>App.tsx: handleReturnToChampionship\<close>

text \<open>
  \<^verbatim>\<open>pointsToAdd\<close> is a \<^verbatim>\<open>Map<number, number>\<close>;
  \<^verbatim>\<open>pointsToAdd.set(k, (pointsToAdd.get(k) || 0) + v)\<close> is \<open>addPoints\<close>.
\<close>

type_synonym pointsMap = "int \<rightharpoonup> rat"

definition getOr0 :: "pointsMap \<Rightarrow> int \<Rightarrow> rat" where
  "getOr0 m k = (case m k of None \<Rightarrow> 0 | Some x \<Rightarrow> x)"

definition addPoints :: "int \<Rightarrow> rat \<Rightarrow> pointsMap \<Rightarrow> pointsMap" where
  "addPoints k v m = m(k \<mapsto> getOr0 m k + v)"

definition initialPoints :: "ChampionshipStanding list \<Rightarrow> pointsMap" where
  "initialPoints sts = fold (\<lambda>p m. m(s_id p \<mapsto> 0)) sts Map.empty"

text \<open>Lines 305 to 308, the chain of comparisons on \<^verbatim>\<open>rank\<close> as it stands.\<close>

definition rankPoints :: "int \<Rightarrow> rat" where
  "rankPoints rank =
     (if rank = 1 then 12 else if rank = 2 then 10 else if rank = 3 then 8 else if rank = 4 then 6
      else if rank \<ge> 5 \<and> rank \<le> 6 then 4 else if rank \<ge> 7 \<and> rank \<le> 8 then 3
      else if rank \<ge> 9 \<and> rank \<le> 12 then 2 else if rank \<ge> 13 \<and> rank \<le> 16 then 1
      else if rank \<ge> 17 \<and> rank \<le> 24 then 1 / 2 else if rank \<ge> 25 \<and> rank \<le> 32 then 1 / 4
      else 0)"

definition qualifiedForPoints :: "Participant list \<Rightarrow> Participant list" where
  "qualifiedForPoints ps = sortByScoreDesc (filter qualifies ps)"

definition awardQualification :: "Participant list \<Rightarrow> pointsMap \<Rightarrow> pointsMap" where
  "awardQualification qualified m0 =
     fold (\<lambda>(index, p). addPoints (p_id p) (rankPoints (int index + 1))) (enumerate 0 qualified) m0"

text \<open>
  \<^verbatim>\<open>x?.participant1?.id === y?.id\<close> compares two possibly \<^verbatim>\<open>undefined\<close> ids, and
  \<^verbatim>\<open>undefined === undefined\<close> holds.
\<close>

definition idOf :: "Participant option \<Rightarrow> int option" where
  "idOf p = map_option p_id p"

definition nonWinner :: "Match option \<Rightarrow> Participant option \<Rightarrow> Participant option" where
  "nonWinner m w =
     (if idOf (Option.bind m participant1) = idOf w then Option.bind m participant2
      else Option.bind m participant1)"

definition addPlacement :: "Participant option \<Rightarrow> rat \<Rightarrow> pointsMap \<Rightarrow> pointsMap" where
  "addPlacement p v m = (case p of None \<Rightarrow> m | Some q \<Rightarrow> addPoints (p_id q) v m)"

text \<open>\<^verbatim>\<open>[...].filter(Boolean)\<close> drops \<^verbatim>\<open>undefined\<close> and the id 0.\<close>

definition top4IdsOf :: "Participant option list \<Rightarrow> int list" where
  "top4IdsOf ps = filter (\<lambda>i. i \<noteq> 0) (List.map_filter idOf ps)"

definition matchLoser :: "Match \<Rightarrow> Participant option" where
  "matchLoser m = (if idOf (winner m) = idOf (participant1 m) then participant2 m else participant1 m)"

definition awardRound :: "int list \<Rightarrow> BracketData \<Rightarrow> nat \<times> rat \<Rightarrow> pointsMap \<Rightarrow> pointsMap" where
  "awardRound top4Ids b mapping m =
     (case find (\<lambda>r. length r * 2 = fst mapping) b of
        None \<Rightarrow> m
      | Some r \<Rightarrow>
          fold (\<lambda>mt acc. case matchLoser mt of
                           None \<Rightarrow> acc
                         | Some loser \<Rightarrow>
                             if p_id loser \<in> set top4Ids then acc
                             else addPoints (p_id loser) (snd mapping) acc) r m)"

definition pointMapping :: "(nat \<times> rat) list" where
  "pointMapping = [(8, 48), (16, 32), (32, 16), (64, 10)]"

definition totalPoints :: "ChampionshipStanding \<Rightarrow> rat" where
  "totalPoints st = sum_list (pointsPerCompetition st)"

definition handleReturnToChampionship :: "AppState \<Rightarrow> AppState" where
  "handleReturnToChampionship prev =
     (let pts0 = initialPoints (standings prev);
          pts1 = awardQualification (qualifiedForPoints (competitionParticipants prev)) pts0;
          finalMatch = finalMatchOf (bracket prev);
          champion = Option.bind finalMatch winner;
          runnerUp = nonWinner finalMatch champion;
          thirdPlace = Option.bind (thirdPlaceMatch prev) winner;
          fourthPlace = nonWinner (thirdPlaceMatch prev) thirdPlace;
          pts2 = addPlacement fourthPlace 64 (addPlacement thirdPlace 76
                   (addPlacement runnerUp 88 (addPlacement champion 100 pts1)));
          top4Ids = top4IdsOf [champion, runnerUp, thirdPlace, fourthPlace];
          pts3 = fold (awardRound top4Ids (bracket prev)) pointMapping pts2;
          newStandings =
            map (\<lambda>st. st\<lparr>pointsPerCompetition := pointsPerCompetition st @ [getOr0 pts3 (s_id st)]\<rparr>)
              (standings prev)
      in prev\<lparr>standings := sort_key (\<lambda>st. - totalPoints st) newStandings,
              competitionsHeld := competitionsHeld prev + 1,
              phase := CHAMPIONSHIP_VIEW\<rparr>)"

section \<open>Reachable states of the admin interface\<close>

text \<open>
  Modelled from the spec: the component TournamentBracket.tsx, which calls
  \<^verbatim>\<open>onSetWinner\<close>, is not among the sources. Section 4.2 gives the contract of the call:
  "a match identifier and a participant that must be one of that match's two slot
  participants". \<open>isSlotParticipant\<close> is that contract, on the match the handler would
  pick (the third-place match when the id is its id, else the match found in the bracket).
\<close>

definition targetMatch :: "AppState \<Rightarrow> int \<Rightarrow> Match option" where
  "targetMatch s matchId =
     (case thirdPlaceMatch s of
        Some t \<Rightarrow> if matchId = m_id t then Some t else findInBracket matchId (bracket s)
      | None \<Rightarrow> findInBracket matchId (bracket s))"

definition isSlotParticipant :: "AppState \<Rightarrow> int \<Rightarrow> Participant \<Rightarrow> bool" where
  "isSlotParticipant s matchId w =
     (case targetMatch s matchId of
        None \<Rightarrow> False
      | Some m \<Rightarrow> participant1 m = Some w \<or> participant2 m = Some w)"

text \<open>
  App.tsx renders ChampionshipView only in the phase \<open>CHAMPIONSHIP_VIEW\<close>,
  QualificationView only in \<open>QUALIFICATION\<close> and TournamentBracket only in \<open>BRACKET\<close>
  and \<open>FINISHED\<close> (lines 385 to 414); each component receives the handlers named in
  the rule for its phase. The effect of lines 46 to 66 appends standings in any phase.
\<close>

inductive reachable :: "AppState \<Rightarrow> bool" where
  initial: "reachable getInitialState"
| setStandings:
    "reachable s \<Longrightarrow> phase s = CHAMPIONSHIP_VIEW \<Longrightarrow> reachable (s\<lparr>standings := sts\<rparr>)"
| syncRegistrations:
    "reachable s \<Longrightarrow> reachable (s\<lparr>standings := standings s @ new\<rparr>)"
| setTotalCompetitions:
    "reachable s \<Longrightarrow> phase s = CHAMPIONSHIP_VIEW \<Longrightarrow> reachable (s\<lparr>totalCompetitions := Some c\<rparr>)"
| startCompetition:
    "reachable s \<Longrightarrow> phase s = CHAMPIONSHIP_VIEW \<Longrightarrow> reachable (handleStartCompetition s)"
| setCompetitionParticipants:
    "reachable s \<Longrightarrow> phase s = QUALIFICATION \<Longrightarrow> reachable (s\<lparr>competitionParticipants := ps\<rparr>)"
| startBracket:
    "reachable s \<Longrightarrow> phase s = QUALIFICATION \<Longrightarrow> handleStartBracket s ps = Inr (a, s') \<Longrightarrow> reachable s'"
| setWinner:
    "reachable s \<Longrightarrow> phase s = BRACKET \<or> phase s = FINISHED \<Longrightarrow> isSlotParticipant s matchId w
       \<Longrightarrow> reachable (handleSetWinner s matchId w)"
| returnToChampionship:
    "reachable s \<Longrightarrow> phase s = BRACKET \<or> phase s = FINISHED \<Longrightarrow> reachable (handleReturnToChampionship s)"

section \<open>convex/sessions.ts: getSession and registerParticipant\<close>

text \<open>
  A document of the table \<^verbatim>\<open>sessions\<close> (schema.ts, with the system fields \<^verbatim>\<open>_id\<close>
  and \<^verbatim>\<open>_creationTime\<close>). \<open>Session\<close> extends \<open>PublicSession\<close> by the one field
  \<^verbatim>\<open>adminSecret\<close>, so that \<^verbatim>\<open>const { adminSecret, ...publicSession } = session\<close> is the
  truncation of the record.
\<close>

record PublicSession = AppState +
  d_id :: string
  d_creationTime :: int
  sessionId :: string
  createdAt :: int
  updatedAt :: int

record Session = PublicSession +
  adminSecret :: string

record Registration =
  r_sessionId :: string
  participantId :: int
  r_name :: string
  r_createdAt :: int
  processed :: bool

record Database =
  sessions :: "Session list"
  registrations :: "Registration list"

text \<open>
  \<^verbatim>\<open>ctx.db.query("sessions").withIndex("by_sessionId", q => q.eq("sessionId", id)).first()\<close>:
  the tables are lists in the order of creation, and \<^verbatim>\<open>first\<close> is \<open>find\<close>.
\<close>

definition sessionById :: "Database \<Rightarrow> string \<Rightarrow> Session option" where
  "sessionById db sid = find (\<lambda>s. sessionId s = sid) (sessions db)"

definition getSession :: "Database \<Rightarrow> string \<Rightarrow> PublicSession option" where
  "getSession db sid =
     (case sessionById db sid of
        None \<Rightarrow> None
      | Some session \<Rightarrow> Some (PublicSession.truncate session))"

text \<open>
  A string is a list of characters of the range U+0000 to U+00FF (Latin-1), one character
  for each UTF-16 code unit. On this range \<^verbatim>\<open>toLowerCase\<close> moves the letters A to Z and
  U+00C0 to U+00DE, the multiplication sign U+00D7 excepted, 32 places on and leaves every
  other character as it is; \<^verbatim>\<open>trim\<close> strips tab, line feed, vertical tab, form feed,
  carriage return, space and the no-break space U+00A0 from both ends.
\<close>

definition lowerChar :: "char \<Rightarrow> char" where
  "lowerChar c =
     (let n = (of_char c :: nat)
      in if (65 \<le> n \<and> n \<le> 90) \<or> (192 \<le> n \<and> n \<le> 222 \<and> n \<noteq> 215) then char_of (n + 32) else c)"

definition toLowerCase :: "string \<Rightarrow> string" where
  "toLowerCase s = map lowerChar s"

definition isWhiteSpace :: "char \<Rightarrow> bool" where
  "isWhiteSpace c = ((of_char c :: nat) \<in> {9, 10, 11, 12, 13, 32, 160})"

definition trim :: "string \<Rightarrow> string" where
  "trim s = rev (dropWhile isWhiteSpace (rev (dropWhile isWhiteSpace s)))"

datatype registerError = SessionNotFound | NameAlreadyRegistered

text \<open>
  The three readings of \<^verbatim>\<open>Date.now()\<close> are the parameters \<open>tId\<close>, \<open>tCreated\<close> and
  \<open>tUpdated\<close>. Both duplicate checks throw the same message. \<^verbatim>\<open>ctx.db.patch\<close> changes
  the document with the id of the session read.
\<close>

definition registerParticipant ::
  "Database \<Rightarrow> string \<Rightarrow> string \<Rightarrow> int \<Rightarrow> int \<Rightarrow> int \<Rightarrow> registerError + (Database \<times> int \<times> string)" where
  "registerParticipant db sid name tId tCreated tUpdated =
     (case sessionById db sid of
        None \<Rightarrow> Inl SessionNotFound
      | Some session \<Rightarrow>
          (let nameLower = trim (toLowerCase name);
               isDuplicate = list_ex (\<lambda>p. toLowerCase (s_name p) = nameLower) (standings session)
           in if isDuplicate then Inl NameAlreadyRegistered
              else (case find (\<lambda>r. r_sessionId r = sid \<and> r_name r = trim name) (registrations db) of
                      Some pendingDupe \<Rightarrow> Inl NameAlreadyRegistered
                    | None \<Rightarrow>
                        (let participantId = tId;
                             registration = \<lparr>r_sessionId = sid, participantId = participantId,
                                             r_name = trim name, r_createdAt = tCreated, processed = False\<rparr>;
                             newStanding = \<lparr>s_id = participantId, s_name = trim name,
                                            pointsPerCompetition = replicate (competitionsHeld session) 0\<rparr>;
                             patched = map (\<lambda>d. if d_id d = d_id session
                                                  then d\<lparr>standings := standings session @ [newStanding],
                                                         updatedAt := tUpdated\<rparr>
                                                  else d) (sessions db)
                         in Inr (db\<lparr>sessions := patched, registrations := registrations db @ [registration]\<rparr>,
                                 participantId, trim name)))))"

section \<open>The points table as the specification words it\<close>

text \<open>
  Section 4.3 of the specification: "rank 1 to 12, 2 to 10, 3 to 8, 4 to 6, 5 to 6: 4,
  7 to 8: 3, 9 to 12: 2, 13 to 16: 1, 17 to 24: 0.5, 25 to 32: 0.25, rank above 32: 0",
  a lookup table keyed by rank range.
\<close>

definition specRankRanges :: "(int \<times> int \<times> rat) list" where
  "specRankRanges =
     [(1, 1, 12), (2, 2, 10), (3, 3, 8), (4, 4, 6), (5, 6, 4), (7, 8, 3), (9, 12, 2), (13, 16, 1),
      (17, 24, 1 / 2), (25, 32, 1 / 4)]"

definition specRankTable :: "int \<Rightarrow> rat" where
  "specRankTable rank =
     (case find (\<lambda>(lo, hi, pts). lo \<le> rank \<and> rank \<le> hi) specRankRanges of
        None \<Rightarrow> 0
      | Some (lo, hi, pts) \<Rightarrow> pts)"

section \<open>Example data\<close>

text \<open>
  Entrants as the qualification view holds them (seed 0), the same people with the seed
  that handleStartBracket gives them, and their standings.
\<close>

definition entrant :: "int \<Rightarrow> string \<Rightarrow> rat option \<Rightarrow> Participant" where
  "entrant i n sc = \<lparr>p_id = i, p_name = n, score = sc, seed = 0\<rparr>"

definition seeded :: "int \<Rightarrow> string \<Rightarrow> rat \<Rightarrow> int \<Rightarrow> Participant" where
  "seeded i n sc sd = \<lparr>p_id = i, p_name = n, score = Some sc, seed = sd\<rparr>"

definition standing :: "int \<Rightarrow> string \<Rightarrow> ChampionshipStanding" where
  "standing i n = \<lparr>s_id = i, s_name = n, pointsPerCompetition = []\<rparr>"

definition ann :: Participant where "ann = seeded 1 ''Ann'' 100 1"

definition bob :: Participant where "bob = seeded 2 ''Bob'' 90 2"

definition cid :: Participant where "cid = seeded 3 ''Cid'' 80 3"

definition dan :: Participant where "dan = seeded 4 ''Dan'' 70 4"

definition eli :: Participant where "eli = seeded 5 ''Eli'' 60 5"

definition fay :: Participant where "fay = seeded 6 ''Fay'' 50 6"

text \<open>Somebody who is in no slot of any bracket below.\<close>

definition eve :: Participant where "eve = seeded 9 ''Eve'' 10 9"

definition threeEntrants :: "Participant list" where
  "threeEntrants = [entrant 1 ''Ann'' (Some 100), entrant 2 ''Bob'' (Some 90), entrant 3 ''Cid'' (Some 80)]"

definition fourEntrants :: "Participant list" where
  "fourEntrants = threeEntrants @ [entrant 4 ''Dan'' (Some 70)]"

definition sixEntrants :: "Participant list" where
  "sixEntrants = fourEntrants @ [entrant 5 ''Eli'' (Some 60), entrant 6 ''Fay'' (Some 50)]"

definition threeStandings :: "ChampionshipStanding list" where
  "threeStandings = [standing 1 ''Ann'', standing 2 ''Bob'', standing 3 ''Cid'']"

definition fourStandings :: "ChampionshipStanding list" where
  "fourStandings = threeStandings @ [standing 4 ''Dan'']"

definition sixStandings :: "ChampionshipStanding list" where
  "sixStandings = fourStandings @ [standing 5 ''Eli'', standing 6 ''Fay'']"

text \<open>
  A run of the admin interface up to the bracket: the standings entered, a competition
  started, the scores entered, and the bracket \<open>b\<close> generated.
\<close>

definition qualificationOf :: "ChampionshipStanding list \<Rightarrow> Participant list \<Rightarrow> AppState" where
  "qualificationOf sts ps =
     (handleStartCompetition (getInitialState\<lparr>standings := sts\<rparr>))\<lparr>competitionParticipants := ps\<rparr>"

definition bracketStateOf ::
  "ChampionshipStanding list \<Rightarrow> Participant list \<Rightarrow> BracketData \<Rightarrow> AppState" where
  "bracketStateOf sts ps b = (qualificationOf sts ps)\<lparr>bracket := b, phase := BRACKET\<rparr>"

text \<open>The brackets that handleStartBracket builds from three, four and six entrants.\<close>

definition bracketOfThree :: BracketData where
  "bracketOfThree =
     [[\<lparr>m_id = 0, roundIndex = 0, matchIndex = 0, participant1 = Some ann, participant2 = None,
        winner = Some ann, nextMatchId = Some 2\<rparr>,
       \<lparr>m_id = 1, roundIndex = 0, matchIndex = 1, participant1 = Some bob, participant2 = Some cid,
        winner = None, nextMatchId = Some 2\<rparr>],
      [\<lparr>m_id = 2, roundIndex = 1, matchIndex = 0, participant1 = Some ann, participant2 = None,
        winner = None, nextMatchId = None\<rparr>]]"

definition semiFinalsOfFour :: "Match list" where
  "semiFinalsOfFour =
     [\<lparr>m_id = 0, roundIndex = 0, matchIndex = 0, participant1 = Some ann, participant2 = Some dan,
       winner = None, nextMatchId = Some 2\<rparr>,
      \<lparr>m_id = 1, roundIndex = 0, matchIndex = 1, participant1 = Some bob, participant2 = Some cid,
       winner = None, nextMatchId = Some 2\<rparr>]"

definition bracketOfFour :: BracketData where
  "bracketOfFour =
     [semiFinalsOfFour,
      [\<lparr>m_id = 2, roundIndex = 1, matchIndex = 0, participant1 = None, participant2 = None,
        winner = None, nextMatchId = None\<rparr>]]"

definition bracketOfSix :: BracketData where
  "bracketOfSix =
     [[\<lparr>m_id = 0, roundIndex = 0, matchIndex = 0, participant1 = Some ann, participant2 = None,
        winner = Some ann, nextMatchId = Some 4\<rparr>,
       \<lparr>m_id = 1, roundIndex = 0, matchIndex = 1, participant1 = Some dan, participant2 = Some eli,
        winner = None, nextMatchId = Some 4\<rparr>,
       \<lparr>m_id = 2, roundIndex = 0, matchIndex = 2, participant1 = Some bob, participant2 = None,
        winner = Some bob, nextMatchId = Some 5\<rparr>,
       \<lparr>m_id = 3, roundIndex = 0, matchIndex = 3, participant1 = Some cid, participant2 = Some fay,
        winner = None, nextMatchId = Some 5\<rparr>],
      [\<lparr>m_id = 4, roundIndex = 1, matchIndex = 0, participant1 = Some ann, participant2 = None,
        winner = None, nextMatchId = Some 6\<rparr>,
       \<lparr>m_id = 5, roundIndex = 1, matchIndex = 1, participant1 = Some bob, participant2 = None,
        winner = None, nextMatchId = Some 6\<rparr>],
      [\<lparr>m_id = 6, roundIndex = 2, matchIndex = 0, participant1 = None, participant2 = None,
        winner = None, nextMatchId = None\<rparr>]]"


definition bracketStateOfThree :: AppState where
  "bracketStateOfThree = bracketStateOf threeStandings threeEntrants bracketOfThree"

definition bracketStateOfFour :: AppState where
  "bracketStateOfFour = bracketStateOf fourStandings fourEntrants bracketOfFour"

definition bracketStateOfSix :: AppState where
  "bracketStateOfSix = bracketStateOf sixStandings sixEntrants bracketOfSix"

text \<open>
  Four entrants: both semifinals played (Ann beats Dan, Bob beats Cid), which creates the
  third-place match of Cid and Dan; then Cid chosen as its winner.
\<close>

definition firstSemiFinalPlayed :: AppState where
  "firstSemiFinalPlayed = handleSetWinner bracketStateOfFour 0 ann"

definition semiFinalsPlayed :: AppState where
  "semiFinalsPlayed = handleSetWinner firstSemiFinalPlayed 1 bob"

definition thirdPlaceDecided :: AppState where
  "thirdPlaceDecided = handleSetWinner semiFinalsPlayed 999 cid"

text \<open>
  Six entrants: Ann and Bob have byes in round 0 and stand alone in the two semifinals
  (matches 4 and 5). Each is chosen as the winner of her or his semifinal while the
  other slot is still empty; later the quarterfinals 1 and 3 are played (Dan and Cid win).
\<close>

definition sixSemiFinalsDecided :: AppState where
  "sixSemiFinalsDecided = handleSetWinner (handleSetWinner bracketStateOfSix 4 ann) 5 bob"

definition sixFirstQuarterFinalPlayed :: AppState where
  "sixFirstQuarterFinalPlayed = handleSetWinner sixSemiFinalsDecided 1 dan"

definition sixQuarterFinalsPlayed :: AppState where
  "sixQuarterFinalsPlayed = handleSetWinner sixFirstQuarterFinalPlayed 3 cid"

text \<open>A stored session and a registration record, for sessions.ts.\<close>

definition storedSession :: "string \<Rightarrow> ChampionshipStanding list \<Rightarrow> Session" where
  "storedSession secret sts =
     \<lparr>phase = CHAMPIONSHIP_VIEW, standings = sts, competitionParticipants = [], bracket = [],
      thirdPlaceMatch = None, totalCompetitions = None, competitionsHeld = 0,
      d_id = ''doc1'', d_creationTime = 1, sessionId = ''dmec-1'', createdAt = 1, updatedAt = 1,
      adminSecret = secret\<rparr>"

definition aliceRegistration :: Registration where
  "aliceRegistration =
     \<lparr>r_sessionId = ''dmec-1'', participantId = 5, r_name = ''Alice'', r_createdAt = 5,
      processed = False\<rparr>"

section \<open>Auxiliary notions of the proofs\<close>

declare ceil_log2.simps [simp del] log2.simps [simp del]

declare seedLoop.simps [code]

definition isThirdPlaceId :: "AppState \<Rightarrow> int \<Rightarrow> bool" where
  "isThirdPlaceId s matchId = (case thirdPlaceMatch s of None \<Rightarrow> False | Some t \<Rightarrow> matchId = m_id t)"

text \<open>
  The seeding order after \<open>k\<close> doublings, and the rounds that \<open>buildRounds\<close> returns when
  the previous round has \<open>2 ^ left\<close> matches (\<open>buildRounds_rounds\<close> below): the links of
  the previous round are ids of the round made from it, \<open>c + j div 2\<close>.
\<close>

definition seedOrder :: "nat \<Rightarrow> int list" where
  "seedOrder k = (nextSeeds ^^ k) [1]"

definition linkedRound :: "int \<Rightarrow> Match list \<Rightarrow> Match list" where
  "linkedRound c prev = map (\<lambda>(j, m). m\<lparr>nextMatchId := Some (c + int (j div 2))\<rparr>) (enumerate 0 prev)"

fun rounds :: "nat \<Rightarrow> int \<Rightarrow> int \<Rightarrow> Match list \<Rightarrow> BracketData" where
  "rounds 0 r c prev = [prev]"
| "rounds (Suc left) r c prev =
     linkedRound c prev # rounds left (r + 1) (c + int (2 ^ left)) (makeRound c r (2 ^ left) prev)"

definition builtBracket :: "Participant list \<Rightarrow> BracketData" where
  "builtBracket q =
     (let k = ceil_log2 (length q)
      in rounds (k - 1) 1 (int (2 ^ (k - 1))) (firstRoundFrom (participantMapOf q) 0 (seedOrder k)))"

text \<open>
  What one call of \<open>resolveMatch\<close> may change in a match: nothing of its id, round, index
  and link; a winner that is set stays; a slot that is filled stays filled; and the only
  participant that can enter a slot is \<open>w\<close>, in the match that the resolved match links to.
\<close>

definition slotsOf :: "Match \<Rightarrow> Participant set" where
  "slotsOf m = set_option (participant1 m) \<union> set_option (participant2 m)"

definition stepRel :: "Participant \<Rightarrow> int option \<Rightarrow> Match \<Rightarrow> Match \<Rightarrow> bool" where
  "stepRel w nxt m m' =
     (m_id m' = m_id m \<and> roundIndex m' = roundIndex m \<and> matchIndex m' = matchIndex m
      \<and> nextMatchId m' = nextMatchId m
      \<and> (winner m \<noteq> None \<longrightarrow> winner m' = winner m)
      \<and> (participant1 m \<noteq> None \<longrightarrow> participant1 m' \<noteq> None)
      \<and> (participant2 m \<noteq> None \<longrightarrow> participant2 m' \<noteq> None)
      \<and> slotsOf m' \<subseteq> slotsOf m \<union> (if Some (m_id m) = nxt then {w} else {}))"

definition resolveNext :: "BracketData \<Rightarrow> int \<Rightarrow> int option" where
  "resolveNext b matchId =
     (case findInBracket matchId b of
        None \<Rightarrow> None
      | Some m \<Rightarrow> if winner m = None then nextMatchId m else None)"

text \<open>
  The shape of a bracket of \<open>k\<close> rounds (round \<open>i\<close> has \<open>2 ^ (k - 1 - i)\<close> matches), and the
  condition under which lines 254 to 283 create the third-place match.
\<close>

definition wfShape :: "BracketData \<Rightarrow> bool" where
  "wfShape b = (\<forall>i < length b. length (b ! i) = 2 ^ (length b - 1 - i))"

definition thirdPlaceDue :: "BracketData \<Rightarrow> bool" where
  "thirdPlaceDue b =
     (1 < length b \<and> list_all (\<lambda>m. winner m \<noteq> None) (semiFinalsOf b) \<and> losersOf (semiFinalsOf b) \<noteq> [])"

definition thirdPlaceInv :: "AppState \<Rightarrow> bool" where
  "thirdPlaceInv s = (wfShape (bracket s) \<and> ((thirdPlaceMatch s \<noteq> None) = thirdPlaceDue (bracket s)))"

text \<open>
  The part of the seeding order that a match may draw its participants from. In a bracket
  of \<open>K\<close> rounds the final may hold anyone; a match of an earlier round \<open>r\<close> lies in the upper
  half of the bracket when its index is below \<open>2 ^ (K - 2 - r)\<close> and in the lower half
  otherwise, and may hold only seeds of \<open>H1\<close>, respectively \<open>H2\<close>. A bracket is \<open>zoned\<close>
  when every slot respects this and every link stays within the half or leads to the final.
\<close>

definition zone :: "nat \<Rightarrow> int set \<Rightarrow> int set \<Rightarrow> Match \<Rightarrow> int set" where
  "zone K H1 H2 m =
     (if int K \<le> roundIndex m + 1 then UNIV
      else if matchIndex m < 2 ^ (K - 2 - nat (roundIndex m)) then H1 else H2)"

definition zoned :: "nat \<Rightarrow> int set \<Rightarrow> int set \<Rightarrow> BracketData \<Rightarrow> bool" where
  "zoned K H1 H2 b =
     (length b = K
      \<and> (\<forall>i<K. \<forall>m\<in>set (b ! i). roundIndex m = int i)
      \<and> (\<forall>m\<in>set (concat b). \<forall>p\<in>slotsOf m. seed p \<in> zone K H1 H2 m)
      \<and> (\<forall>m\<in>set (concat b). \<forall>m'\<in>set (concat b).
            nextMatchId m = Some (m_id m') \<longrightarrow> zone K H1 H2 m \<subseteq> zone K H1 H2 m'))"

text \<open>
  The same for the rounds under construction in \<open>buildRounds\<close>: \<open>prev\<close> is the round
  \<open>r - 1\<close> of \<open>2 ^ left\<close> matches, not yet linked, whose ids end below the counter \<open>c\<close>.
\<close>

definition prevOK :: "nat \<Rightarrow> int set \<Rightarrow> int set \<Rightarrow> int \<Rightarrow> int \<Rightarrow> nat \<Rightarrow> Match list \<Rightarrow> bool" where
  "prevOK K H1 H2 r c left prev =
     (length prev = 2 ^ left
      \<and> (\<forall>j<2 ^ left. roundIndex (prev ! j) = r - 1 \<and> matchIndex (prev ! j) = int j
             \<and> m_id (prev ! j) = c - int (2 ^ left) + int j \<and> nextMatchId (prev ! j) = None)
      \<and> (\<forall>m\<in>set prev. \<forall>p\<in>slotsOf m \<union> set_option (winner m). seed p \<in> zone K H1 H2 m))"

definition builtOK :: "nat \<Rightarrow> int set \<Rightarrow> int set \<Rightarrow> int \<Rightarrow> int \<Rightarrow> nat \<Rightarrow> BracketData \<Rightarrow> bool" where
  "builtOK K H1 H2 r c left b =
     ((\<forall>i\<le>left. \<forall>m\<in>set (b ! i). roundIndex m = r - 1 + int i)
      \<and> (\<forall>m\<in>set (concat b). \<forall>p\<in>slotsOf m. seed p \<in> zone K H1 H2 m)
      \<and> (\<forall>m\<in>set (concat b). \<forall>m'\<in>set (concat b).
            nextMatchId m = Some (m_id m') \<longrightarrow>
              roundIndex m' = roundIndex m + 1 \<and> matchIndex m' = matchIndex m div 2)
      \<and> (\<forall>m\<in>set (concat b). c - int (2 ^ left) \<le> m_id m \<and> (\<forall>x. nextMatchId m = Some x \<longrightarrow> c \<le> x))
      \<and> (\<forall>m\<in>set (concat b). m_id m < c \<longrightarrow>
            (\<exists>j<2 ^ left. m_id m = c - int (2 ^ left) + int j \<and> matchIndex m = int j
                \<and> roundIndex m = r - 1)))"

text \<open>
  Seeds 1 and 2 are kept apart: the bracket is zoned by two sets of seeds, the first
  without seed 2 and the second without seed 1.
\<close>

definition seedsApart :: "AppState \<Rightarrow> bool" where
  "seedsApart s = (\<exists>K H1 H2. 2 \<notin> H1 \<and> 1 \<notin> H2 \<and> zoned K H1 H2 (bracket s))"

text \<open>
  The ranks (positions counted from 1) at which the id \<open>k\<close> stands in the list \<open>q\<close> of
  qualifiers. Lines 312 to 333 of handleReturnToChampionship, the points of the bracket,
  as a function of the bracket, the third-place match and the points map they start from;
  \<open>placementPoints\<close> is what they alone enter for an id. A stage of the handler is
  \<open>additive\<close> when what it adds for an id does not depend on the map it starts from.
\<close>

definition ranksOf :: "Participant list \<Rightarrow> int \<Rightarrow> int list" where
  "ranksOf q k = map (\<lambda>i. int i + 1) (filter (\<lambda>i. p_id (q ! i) = k) [0..<length q])"

definition placementStage :: "BracketData \<Rightarrow> Match option \<Rightarrow> pointsMap \<Rightarrow> pointsMap" where
  "placementStage b t pts1 =
     (let finalMatch = finalMatchOf b;
          champion = Option.bind finalMatch winner;
          runnerUp = nonWinner finalMatch champion;
          thirdPlace = Option.bind t winner;
          fourthPlace = nonWinner t thirdPlace;
          pts2 = addPlacement fourthPlace 64 (addPlacement thirdPlace 76
                   (addPlacement runnerUp 88 (addPlacement champion 100 pts1)));
          top4Ids = top4IdsOf [champion, runnerUp, thirdPlace, fourthPlace]
      in fold (awardRound top4Ids b) pointMapping pts2)"

definition placementPoints :: "BracketData \<Rightarrow> Match option \<Rightarrow> int \<Rightarrow> rat" where
  "placementPoints b t k = getOr0 (placementStage b t Map.empty) k"

definition additive :: "(pointsMap \<Rightarrow> pointsMap) \<Rightarrow> bool" where
  "additive f = (\<forall>m k. getOr0 (f m) k = getOr0 m k + getOr0 (f Map.empty) k)"

section \<open>Qualification: the guard of handleStartBracket\<close>

lemma length_qualifiedParticipants:
  "length (qualifiedParticipants ps) = length (filter qualifies ps)"
  by (simp add: qualifiedParticipants_def sortByScoreDesc_def)

text \<open>
  C5. With fewer than two participants of score above 0 (a score of \<^verbatim>\<open>null\<close> or 0 does
  not qualify), handleStartBracket alerts and leaves the state as it was: no bracket is
  set and the phase does not change.
\<close>

theorem insufficient_qualifiers_rejected:
  "length (filter qualifies ps) < 2 \<Longrightarrow>
   handleStartBracket s ps = Inr (Some InsufficientQualifiers, s)"
  by (simp add: handleStartBracket_def length_qualifiedParticipants MIN_PARTICIPANTS_def)

theorem insufficient_qualifiers_rejected_witness:
  "length (filter qualifies [entrant 1 ''Ann'' (Some 50), entrant 2 ''Bob'' (Some 0), entrant 3 ''Cid'' None]) < 2
   \<and> handleStartBracket getInitialState
        [entrant 1 ''Ann'' (Some 50), entrant 2 ''Bob'' (Some 0), entrant 3 ''Cid'' None]
       = Inr (Some InsufficientQualifiers, getInitialState)"
proof -
  have few: "length (filter qualifies [entrant 1 ''Ann'' (Some 50), entrant 2 ''Bob'' (Some 0), entrant 3 ''Cid'' None]) < 2"
    by (simp add: qualifies_def entrant_def)
  show ?thesis
    using few insufficient_qualifiers_rejected [OF few, of getInitialState] by simp
qed

section \<open>The seeding order\<close>

text \<open>
  C6. The recursive doubling from \<open>[1]\<close> gives the order 1, 8, 4, 5, 2, 7, 3, 6 for a
  bracket of 8, the order 1, 4, 2, 3 for a bracket of 4 and the order 1, 2 for a bracket of 2.
\<close>

theorem seeding_order_small_brackets:
  "finalSeedOrder 8 = Some [1, 8, 4, 5, 2, 7, 3, 6]
   \<and> finalSeedOrder 4 = Some [1, 4, 2, 3]
   \<and> finalSeedOrder 2 = Some [1, 2]"
  by (simp add: finalSeedOrder_def seedLoop.simps nextSeeds_def)

section \<open>Qualification points\<close>

lemma rankPoints_table: "rankPoints rank = specRankTable rank"
  unfolding rankPoints_def specRankTable_def specRankRanges_def by simp

lemma getOr0_initialPoints_aux:
  "getOr0 (fold (\<lambda>p m. m(s_id p \<mapsto> 0)) sts m) k = (if k \<in> s_id ` set sts then 0 else getOr0 m k)"
  by (induction sts arbitrary: m) (auto simp: getOr0_def)

lemma getOr0_initialPoints: "getOr0 (initialPoints sts) k = 0"
proof -
  have "getOr0 Map.empty k = 0" by (simp add: getOr0_def)
  then show ?thesis unfolding initialPoints_def by (simp add: getOr0_initialPoints_aux)
qed

lemma getOr0_addPoints:
  "getOr0 (addPoints k' v m) k = getOr0 m k + (if k = k' then v else 0)"
  by (simp add: addPoints_def getOr0_def)

lemma additive_addPoints: "additive (addPoints k' v)"
  unfolding additive_def by (simp add: getOr0_addPoints) (simp add: getOr0_def)

lemma additive_id: "additive (\<lambda>m. m)"
  unfolding additive_def by (simp add: getOr0_def)

lemma additive_comp:
  assumes "additive f" and "additive g"
  shows "additive (\<lambda>m. g (f m))"
proof -
  have f: "\<And>m k. getOr0 (f m) k = getOr0 m k + getOr0 (f Map.empty) k"
    using assms(1) unfolding additive_def by blast
  have g: "\<And>m k. getOr0 (g m) k = getOr0 m k + getOr0 (g Map.empty) k"
    using assms(2) unfolding additive_def by blast
  show ?thesis
    unfolding additive_def
  proof (intro allI)
    fix m k
    have "getOr0 (g (f m)) k = getOr0 m k + getOr0 (f Map.empty) k + getOr0 (g Map.empty) k"
      by (simp add: g[of "f m"] f[of m])
    moreover have "getOr0 (g (f Map.empty)) k = getOr0 (f Map.empty) k + getOr0 (g Map.empty) k"
      by (simp add: g[of "f Map.empty"])
    ultimately show "getOr0 (g (f m)) k = getOr0 m k + getOr0 (g (f Map.empty)) k" by simp
  qed
qed

lemma additive_fold:
  assumes "\<And>x. x \<in> set xs \<Longrightarrow> additive (F x)"
  shows "additive (fold F xs)"
  using assms
proof (induction xs)
  case Nil
  then show ?case using additive_id by (simp add: id_def)
next
  case (Cons x xs)
  have "additive (\<lambda>m. fold F xs (F x m))"
    by (rule additive_comp) (simp_all add: Cons)
  then show ?case by (simp add: comp_def)
qed

lemma additive_addPlacement: "additive (addPlacement p v)"
  unfolding additive_def
  by (cases p) (simp_all add: addPlacement_def getOr0_addPoints, simp_all add: getOr0_def)

lemma additive_awardRound: "additive (awardRound top4Ids b mapping)"
proof (cases "find (\<lambda>r. length r * 2 = fst mapping) b")
  case None
  then show ?thesis unfolding additive_def by (simp add: awardRound_def getOr0_def)
next
  case (Some r)
  let ?F = "\<lambda>mt acc. case matchLoser mt of
                           None \<Rightarrow> acc
                         | Some loser \<Rightarrow>
                             if p_id loser \<in> set top4Ids then acc
                             else addPoints (p_id loser) (snd mapping) acc"
  have "additive (fold ?F r)"
  proof (rule additive_fold)
    fix mt
    show "additive (?F mt)"
      unfolding additive_def
      by (cases "matchLoser mt") (simp_all add: getOr0_addPoints, simp_all add: getOr0_def)
  qed
  moreover have "awardRound top4Ids b mapping = fold ?F r"
    by (rule ext) (simp add: awardRound_def Some)
  ultimately show ?thesis by simp
qed

lemma additive_placementStage: "additive (placementStage b t)"
proof -
  let ?champion = "Option.bind (finalMatchOf b) winner"
  let ?runnerUp = "nonWinner (finalMatchOf b) ?champion"
  let ?thirdPlace = "Option.bind t winner"
  let ?fourthPlace = "nonWinner t ?thirdPlace"
  let ?top4Ids = "top4IdsOf [?champion, ?runnerUp, ?thirdPlace, ?fourthPlace]"
  have 1: "additive (addPlacement ?champion 100)" by (rule additive_addPlacement)
  have 2: "additive (\<lambda>m. addPlacement ?runnerUp 88 (addPlacement ?champion 100 m))"
    by (rule additive_comp[OF 1 additive_addPlacement])
  have 3: "additive (\<lambda>m. addPlacement ?thirdPlace 76
             (addPlacement ?runnerUp 88 (addPlacement ?champion 100 m)))"
    by (rule additive_comp[OF 2 additive_addPlacement])
  have 4: "additive (\<lambda>m. addPlacement ?fourthPlace 64 (addPlacement ?thirdPlace 76
             (addPlacement ?runnerUp 88 (addPlacement ?champion 100 m))))"
    by (rule additive_comp[OF 3 additive_addPlacement])
  have 5: "additive (fold (awardRound ?top4Ids b) pointMapping)"
    by (rule additive_fold) (rule additive_awardRound)
  have 6: "additive (\<lambda>m. fold (awardRound ?top4Ids b) pointMapping
             (addPlacement ?fourthPlace 64 (addPlacement ?thirdPlace 76
             (addPlacement ?runnerUp 88 (addPlacement ?champion 100 m)))))"
    by (rule additive_comp[OF 4 5])
  have "placementStage b t = (\<lambda>m. fold (awardRound ?top4Ids b) pointMapping
             (addPlacement ?fourthPlace 64 (addPlacement ?thirdPlace 76
             (addPlacement ?runnerUp 88 (addPlacement ?champion 100 m)))))"
    by (rule ext) (simp only: placementStage_def Let_def)
  then show ?thesis using 6 by simp
qed

lemma getOr0_placementStage:
  "getOr0 (placementStage b t m) k = getOr0 m k + placementPoints b t k"
  using additive_placementStage[of b t] unfolding additive_def placementPoints_def by blast

lemma ranks_enumerate:
  "map (\<lambda>(index, p). int index + 1) (filter (\<lambda>(index, p). p_id p = k) (enumerate n qs))
     = map (\<lambda>i. int (n + i) + 1) (filter (\<lambda>i. p_id (qs ! i) = k) [0..<length qs])"
proof (induction qs arbitrary: n)
  case Nil
  then show ?case by simp
next
  case (Cons q qs)
  have upt: "[0..<length (q # qs)] = 0 # map Suc [0..<length qs]"
    by (simp add: upt_conv_Cons map_Suc_upt del: upt_Suc)
  show ?case
    unfolding upt by (simp add: Cons.IH filter_map comp_def)
qed

lemma award_sum:
  "getOr0 (fold (\<lambda>(index, p). addPoints (p_id p) (rankPoints (int index + 1))) (enumerate n qs) m) k
     = getOr0 m k
       + sum_list (map specRankTable
           (map (\<lambda>(index, p). int index + 1) (filter (\<lambda>(index, p). p_id p = k) (enumerate n qs))))"
  by (induction qs arbitrary: n m) (simp_all add: getOr0_addPoints rankPoints_table)

lemma getOr0_awardQualification:
  "getOr0 (awardQualification q m) k = getOr0 m k + sum_list (map specRankTable (ranksOf q k))"
  unfolding awardQualification_def ranksOf_def
  by (simp only: award_sum ranks_enumerate) simp

lemma standings_handleReturnToChampionship:
  "standings (handleReturnToChampionship prev)
     = sort_key (\<lambda>st. - totalPoints st)
         (map (\<lambda>st. st\<lparr>pointsPerCompetition := pointsPerCompetition st @
                      [sum_list (map specRankTable (ranksOf (qualifiedForPoints (competitionParticipants prev)) (s_id st)))
                        + placementPoints (bracket prev) (thirdPlaceMatch prev) (s_id st)]\<rparr>)
            (standings prev))"
proof -
  have "handleReturnToChampionship prev
      = prev\<lparr>standings := sort_key (\<lambda>st. - totalPoints st)
          (map (\<lambda>st. st\<lparr>pointsPerCompetition := pointsPerCompetition st @
             [getOr0 (placementStage (bracket prev) (thirdPlaceMatch prev)
                (awardQualification (qualifiedForPoints (competitionParticipants prev))
                   (initialPoints (standings prev)))) (s_id st)]\<rparr>) (standings prev)),
              competitionsHeld := competitionsHeld prev + 1,
              phase := CHAMPIONSHIP_VIEW\<rparr>"
    unfolding handleReturnToChampionship_def placementStage_def Let_def by (rule refl)
  then show ?thesis
    by (simp add: getOr0_placementStage getOr0_awardQualification getOr0_initialPoints)
qed

lemma filter_upt_unique:
  assumes "i < n" and "P i" and "\<forall>j<n. P j \<longrightarrow> j = i"
  shows "filter P [0..<n] = [i]"
proof -
  have s: "set (filter P [0..<n]) = {i}"
  proof (rule set_eqI)
    fix j
    show "j \<in> set (filter P [0..<n]) \<longleftrightarrow> j \<in> {i}"
    proof (cases "j = i")
      case True
      then show ?thesis using assms(1,2) by simp
    next
      case False
      then have "\<not> (j < n \<and> P j)" using assms(3) by blast
      then show ?thesis using False by auto
    qed
  qed
  have d: "distinct (filter P [0..<n])" by simp
  have "length (filter P [0..<n]) = card (set (filter P [0..<n]))"
    using d by (simp only: distinct_card)
  then have "length (filter P [0..<n]) = 1" by (simp only: s) simp
  then obtain x where x: "filter P [0..<n] = [x]"
    by (cases "filter P [0..<n]") simp_all
  have "x \<in> set (filter P [0..<n])" by (simp only: x) simp
  then have "x = i" by (simp only: s) simp
  then show ?thesis using x by simp
qed

lemma ranksOf_unique:
  assumes "i < length q" and "\<forall>j<length q. p_id (q ! j) = p_id (q ! i) \<longrightarrow> j = i"
  shows "ranksOf q (p_id (q ! i)) = [int i + 1]"
proof -
  have "filter (\<lambda>j. p_id (q ! j) = p_id (q ! i)) [0..<length q] = [i]"
    using assms(1) _ assms(2) by (rule filter_upt_unique) (rule refl)
  then show ?thesis by (simp add: ranksOf_def)
qed

lemma qualifiedForPoints_sorted:
  "sorted_wrt (\<lambda>a b. scoreOf a \<ge> scoreOf b) (qualifiedForPoints ps)"
proof -
  have "sorted (map (\<lambda>p. - scoreOf p) (qualifiedForPoints ps))"
    by (simp add: qualifiedForPoints_def sortByScoreDesc_def)
  then show ?thesis by (simp add: sorted_wrt_map)
qed

lemma qualifiedForPoints_stable:
  "filter (\<lambda>p. scoreOf p = x) (qualifiedForPoints ps) = filter (\<lambda>p. scoreOf p = x) (filter qualifies ps)"
  using sort_key_stable[of "\<lambda>p. - scoreOf p" "- x" "filter qualifies ps"]
  by (simp add: qualifiedForPoints_def sortByScoreDesc_def)

text \<open>
  C8. handleReturnToChampionship ranks the participants of score above 0 in descending
  order of score, ties in the order of the input, and awards every rank its entry of the
  rank table of the specification: the standings it returns are the standings it was
  given, each with one more entry, the table's entries of the ranks at which the id of the
  standing stands among the qualifiers plus the points of the bracket, in descending order
  of the totals. An id that stands at one rank only, \<open>i + 1\<close>, has the ranks \<open>[i + 1]\<close>, so
  that its qualification points are exactly the table's entry for that rank.
\<close>

theorem qualification_points_by_rank_table:
  "sorted_wrt (\<lambda>a b. scoreOf a \<ge> scoreOf b) (qualifiedForPoints (competitionParticipants prev))
   \<and> filter (\<lambda>p. scoreOf p = x) (qualifiedForPoints (competitionParticipants prev))
       = filter (\<lambda>p. scoreOf p = x) (filter qualifies (competitionParticipants prev))
   \<and> set (qualifiedForPoints (competitionParticipants prev))
       = {p \<in> set (competitionParticipants prev). qualifies p}
   \<and> standings (handleReturnToChampionship prev)
       = sort_key (\<lambda>st. - totalPoints st)
           (map (\<lambda>st. st\<lparr>pointsPerCompetition := pointsPerCompetition st @
                        [sum_list (map specRankTable
                           (ranksOf (qualifiedForPoints (competitionParticipants prev)) (s_id st)))
                          + placementPoints (bracket prev) (thirdPlaceMatch prev) (s_id st)]\<rparr>)
              (standings prev))
   \<and> (i < length (qualifiedForPoints (competitionParticipants prev))
        \<and> (\<forall>j<length (qualifiedForPoints (competitionParticipants prev)).
              p_id (qualifiedForPoints (competitionParticipants prev) ! j)
                = p_id (qualifiedForPoints (competitionParticipants prev) ! i) \<longrightarrow> j = i)
        \<longrightarrow> ranksOf (qualifiedForPoints (competitionParticipants prev))
              (p_id (qualifiedForPoints (competitionParticipants prev) ! i)) = [int i + 1])"
proof -
  let ?ps = "competitionParticipants prev"
  let ?q = "qualifiedForPoints ?ps"
  have A: "sorted_wrt (\<lambda>a b. scoreOf a \<ge> scoreOf b) ?q"
    by (rule qualifiedForPoints_sorted)
  have B: "filter (\<lambda>p. scoreOf p = x) ?q = filter (\<lambda>p. scoreOf p = x) (filter qualifies ?ps)"
    by (rule qualifiedForPoints_stable)
  have C: "set ?q = {p \<in> set ?ps. qualifies p}"
    by (simp add: qualifiedForPoints_def sortByScoreDesc_def)
  have D: "standings (handleReturnToChampionship prev)
       = sort_key (\<lambda>st. - totalPoints st)
           (map (\<lambda>st. st\<lparr>pointsPerCompetition := pointsPerCompetition st @
                        [sum_list (map specRankTable (ranksOf ?q (s_id st)))
                          + placementPoints (bracket prev) (thirdPlaceMatch prev) (s_id st)]\<rparr>)
              (standings prev))"
    by (rule standings_handleReturnToChampionship)
  have E: "i < length ?q \<and> (\<forall>j<length ?q. p_id (?q ! j) = p_id (?q ! i) \<longrightarrow> j = i)
        \<longrightarrow> ranksOf ?q (p_id (?q ! i)) = [int i + 1]"
  proof
    assume h: "i < length ?q \<and> (\<forall>j<length ?q. p_id (?q ! j) = p_id (?q ! i) \<longrightarrow> j = i)"
    show "ranksOf ?q (p_id (?q ! i)) = [int i + 1]"
    proof (rule ranksOf_unique)
      show "i < length ?q" using h by (rule conjunct1)
      show "\<forall>j<length ?q. p_id (?q ! j) = p_id (?q ! i) \<longrightarrow> j = i" using h by (rule conjunct2)
    qed
  qed
  show ?thesis by (intro conjI) (rule A, rule B, rule C, rule D, rule E)
qed

lemma qualifiedForPoints_fourEntrants: "qualifiedForPoints fourEntrants = fourEntrants"
  by (simp add: qualifiedForPoints_def sortByScoreDesc_def fourEntrants_def threeEntrants_def
      entrant_def qualifies_def scoreOf_def)

text \<open>
  Four entrants of the scores 100, 90, 80 and 70, the bracket generated and no match
  played: the bracket gives no points, and the standings receive 12, 10, 8 and 6.
\<close>

theorem qualification_points_by_rank_table_witness:
  "competitionParticipants bracketStateOfFour = fourEntrants
   \<and> qualifiedForPoints fourEntrants = fourEntrants
   \<and> map (ranksOf fourEntrants) [1, 2, 3, 4] = [[1], [2], [3], [4]]
   \<and> map (placementPoints (bracket bracketStateOfFour) (thirdPlaceMatch bracketStateOfFour)) [1, 2, 3, 4]
       = [0, 0, 0, 0]
   \<and> standings (handleReturnToChampionship bracketStateOfFour)
       = [\<lparr>s_id = 1, s_name = ''Ann'', pointsPerCompetition = [12]\<rparr>,
          \<lparr>s_id = 2, s_name = ''Bob'', pointsPerCompetition = [10]\<rparr>,
          \<lparr>s_id = 3, s_name = ''Cid'', pointsPerCompetition = [8]\<rparr>,
          \<lparr>s_id = 4, s_name = ''Dan'', pointsPerCompetition = [6]\<rparr>]"
proof -
  let ?q = "qualifiedForPoints (competitionParticipants bracketStateOfFour)"
  have cp: "competitionParticipants bracketStateOfFour = fourEntrants" by code_simp
  have q: "qualifiedForPoints fourEntrants = fourEntrants" by (rule qualifiedForPoints_fourEntrants)
  have r: "map (ranksOf fourEntrants) [1, 2, 3, 4] = [[1], [2], [3], [4]]" by code_simp
  have p: "map (placementPoints (bracket bracketStateOfFour) (thirdPlaceMatch bracketStateOfFour)) [1, 2, 3, 4]
       = [0, 0, 0, 0]" by code_simp
  have u: "0 < length ?q \<and> (\<forall>j<length ?q. p_id (?q ! j) = p_id (?q ! 0) \<longrightarrow> j = 0)"
    by code_simp
  have rhs: "sort_key (\<lambda>st. - totalPoints st)
              (map (\<lambda>st. st\<lparr>pointsPerCompetition := pointsPerCompetition st @
                           [sum_list (map specRankTable (ranksOf ?q (s_id st)))
                             + placementPoints (bracket bracketStateOfFour) (thirdPlaceMatch bracketStateOfFour) (s_id st)]\<rparr>)
                 (standings bracketStateOfFour))
       = [\<lparr>s_id = 1, s_name = ''Ann'', pointsPerCompetition = [12]\<rparr>,
          \<lparr>s_id = 2, s_name = ''Bob'', pointsPerCompetition = [10]\<rparr>,
          \<lparr>s_id = 3, s_name = ''Cid'', pointsPerCompetition = [8]\<rparr>,
          \<lparr>s_id = 4, s_name = ''Dan'', pointsPerCompetition = [6]\<rparr>]"
    by code_simp
  show ?thesis
    using qualification_points_by_rank_table [of bracketStateOfFour 0 0] cp q r p u rhs
    by (simp only: simp_thms)
qed

section \<open>getSession and the admin secret\<close>

lemma getSession_find:
  "getSession db sid = find (\<lambda>p. sessionId p = sid) (map PublicSession.truncate (sessions db))"
proof -
  have "find (\<lambda>p. sessionId p = sid) (map PublicSession.truncate xs)
          = map_option PublicSession.truncate (find (\<lambda>s. sessionId s = sid) xs)" for xs :: "Session list"
    by (induction xs) (auto simp: PublicSession.truncate_def)
  then show ?thesis by (simp add: getSession_def sessionById_def split: option.splits)
qed

text \<open>
  C10. The result of getSession has no field for the admin secret, and it does not depend
  on the secrets stored: two databases whose sessions agree in every field but
  \<^verbatim>\<open>adminSecret\<close> answer every getSession query alike.
\<close>

theorem getSession_independent_of_adminSecret:
  "map PublicSession.truncate (sessions db1) = map PublicSession.truncate (sessions db2) \<Longrightarrow>
   getSession db1 sid = getSession db2 sid"
  by (simp add: getSession_find)

theorem getSession_independent_of_adminSecret_witness:
  "storedSession ''k3y-one'' [] \<noteq> storedSession ''k3y-two'' []
   \<and> getSession \<lparr>sessions = [storedSession ''k3y-one'' []], registrations = []\<rparr> ''dmec-1''
       = getSession \<lparr>sessions = [storedSession ''k3y-two'' []], registrations = []\<rparr> ''dmec-1''
   \<and> getSession \<lparr>sessions = [storedSession ''k3y-one'' []], registrations = []\<rparr> ''dmec-1'' \<noteq> None"
proof -
  have same: "map PublicSession.truncate (sessions \<lparr>sessions = [storedSession ''k3y-one'' []], registrations = []\<rparr>)
        = map PublicSession.truncate (sessions \<lparr>sessions = [storedSession ''k3y-two'' []], registrations = []\<rparr>)"
    by (simp add: storedSession_def PublicSession.truncate_def)
  have differ: "storedSession ''k3y-one'' [] \<noteq> storedSession ''k3y-two'' []"
    by (simp add: storedSession_def)
  have found: "getSession \<lparr>sessions = [storedSession ''k3y-one'' []], registrations = []\<rparr> ''dmec-1'' \<noteq> None"
    by (simp add: getSession_def sessionById_def storedSession_def)
  show ?thesis
    using differ found getSession_independent_of_adminSecret [OF same, of "''dmec-1''"] by simp
qed

section \<open>The bracket builder returns\<close>

lemma log2_power [simp]: "log2 (2 ^ k) = k"
proof (induction k)
  case 0
  show ?case by (subst log2.simps) simp
next
  case (Suc k)
  have "\<not> (2::nat) ^ Suc k \<le> 1" by (simp add: not_le less_eq_Suc_le[symmetric] Suc_lessI)
  then show ?case using Suc by (subst log2.simps) simp
qed

lemma ceil_log2_ge: "n \<le> 2 ^ ceil_log2 n"
proof (induction n rule: ceil_log2.induct)
  case (1 n)
  show ?case
  proof (cases "n \<le> 1")
    case True
    moreover have "1 \<le> (2::nat) ^ ceil_log2 n" by simp
    ultimately show ?thesis by linarith
  next
    case False
    with 1 have "(n + 1) div 2 \<le> 2 ^ ceil_log2 ((n + 1) div 2)" by simp
    then have "n \<le> 2 * 2 ^ ceil_log2 ((n + 1) div 2)" by linarith
    then show ?thesis using False by (subst ceil_log2.simps) simp
  qed
qed

lemma ceil_log2_pos: "2 \<le> n \<Longrightarrow> 1 \<le> ceil_log2 n"
  by (subst ceil_log2.simps) simp

lemma ceil_log2_least: "2 \<le> n \<Longrightarrow> 2 ^ (ceil_log2 n - 1) < n"
proof (induction n rule: ceil_log2.induct)
  case (1 n)
  let ?h = "(n + 1) div 2"
  have unfold: "ceil_log2 n = Suc (ceil_log2 ?h)" using 1(2) by (subst ceil_log2.simps) simp
  show ?case
  proof (cases "2 \<le> ?h")
    case True
    with 1 have less: "2 ^ (ceil_log2 ?h - 1) < ?h" by simp
    obtain c where c: "ceil_log2 ?h = Suc c"
      using ceil_log2_pos[OF True] by (cases "ceil_log2 ?h") auto
    have "2 ^ c + 1 \<le> ?h" using less unfolding c by simp
    then have "2 * 2 ^ c + 2 \<le> 2 * ?h" by linarith
    moreover have "2 * ?h \<le> n + 1" by simp
    ultimately have "2 * 2 ^ c < n" by linarith
    then show ?thesis using unfold c by simp
  next
    case False
    then have "?h \<le> 1" by simp
    then have "ceil_log2 ?h = 0" by (subst ceil_log2.simps) simp
    then show ?thesis using unfold 1(2) by simp
  qed
qed

lemma length_nextSeeds [simp]: "length (nextSeeds seeds) = 2 * length seeds"
  by (simp add: nextSeeds_def length_concat o_def sum_list_triv)

lemma seedLoop_iterate:
  "length seeds = 2 ^ j \<Longrightarrow> j \<le> k \<Longrightarrow> seedLoop (2 ^ k) seeds = Some ((nextSeeds ^^ (k - j)) seeds)"
proof (induction "k - j" arbitrary: j seeds)
  case 0
  then show ?case by (subst seedLoop.simps) simp
next
  case (Suc d)
  then have lt: "j < k" by simp
  then have "(2::nat) ^ j < 2 ^ k" by simp
  moreover have "seedLoop (2 ^ k) (nextSeeds seeds) = Some ((nextSeeds ^^ (k - Suc j)) (nextSeeds seeds))"
    using Suc(1)[of "Suc j" "nextSeeds seeds"] Suc(2,3) lt by simp
  moreover have "k - j = Suc (k - Suc j)" using lt by simp
  ultimately show ?case using Suc(3)
    by (subst seedLoop.simps) (simp add: funpow_swap1)
qed

lemma finalSeedOrder_power: "finalSeedOrder (2 ^ k) = Some (seedOrder k)"
  using seedLoop_iterate[of "[1]" 0 k] by (simp add: finalSeedOrder_def seedOrder_def)

lemma length_seedOrder [simp]: "length (seedOrder k) = 2 ^ k"
  by (induction k) (simp_all add: seedOrder_def)

lemma length_firstRoundFrom [simp]: "length (firstRoundFrom pm c xs) = (length xs + 1) div 2"
  by (induction pm c xs rule: firstRoundFrom.induct) simp_all

lemma length_makeRound [simp]: "length (makeRound c r n prev) = n"
  by (simp add: makeRound_def)

lemma m_id_makeRound: "j < n \<Longrightarrow> m_id (makeRound c r n prev ! j) = c + int j"
  by (simp add: makeRound_def laterRoundMatch_def split: prod.splits)

lemma linkFrom_closed:
  "i + length prev \<le> 2 * length cur \<Longrightarrow>
   linkFrom i prev cur = Some (map (\<lambda>(j, m). m\<lparr>nextMatchId := Some (m_id (cur ! (j div 2)))\<rparr>) (enumerate i prev))"
proof (induction prev arbitrary: i)
  case Nil
  then show ?case by simp
next
  case (Cons m ms)
  then have "i div 2 < length cur" by simp
  moreover have "Suc i + length ms \<le> 2 * length cur" using Cons.prems by simp
  ultimately show ?case using Cons.IH[of "Suc i"] by (simp add: nthOpt_def)
qed

lemma linkFrom_makeRound:
  assumes "length prev = 2 * n"
  shows "linkFrom 0 prev (makeRound c r n prev) = Some (linkedRound c prev)"
proof -
  have "map (\<lambda>(j, m). m\<lparr>nextMatchId := Some (m_id (makeRound c r n prev ! (j div 2)))\<rparr>) (enumerate 0 prev)
        = linkedRound c prev"
    unfolding linkedRound_def
    by (rule map_cong[OF refl]) (auto simp: in_set_enumerate_eq assms m_id_makeRound)
  then show ?thesis using linkFrom_closed[of 0 prev "makeRound c r n prev"] assms by simp
qed

lemma buildRounds_rounds:
  "length prev = 2 ^ left \<Longrightarrow> buildRounds left r c (2 ^ left) prev = Some (rounds left r c prev)"
proof (induction left arbitrary: r c prev)
  case 0
  then show ?case by simp
next
  case (Suc left)
  have "linkFrom 0 prev (makeRound c r (2 ^ left) prev) = Some (linkedRound c prev)"
    using Suc.prems by (intro linkFrom_makeRound) simp
  moreover have "buildRounds left (r + 1) (c + int (2 ^ left)) (2 ^ left) (makeRound c r (2 ^ left) prev)
        = Some (rounds left (r + 1) (c + int (2 ^ left)) (makeRound c r (2 ^ left) prev))"
    by (rule Suc.IH) simp
  ultimately show ?case by (simp add: Let_def)
qed

lemma half_power_Suc: "(2::nat) ^ Suc k div 2 = 2 ^ k"
  by simp

lemma buildBracket_total:
  assumes "2 \<le> length q"
  shows "buildBracket q = Inr (builtBracket q)"
proof -
  obtain k' where k: "ceil_log2 (length q) = Suc k'"
    using ceil_log2_pos[OF assms] by (cases "ceil_log2 (length q)") auto
  let ?first = "firstRoundFrom (participantMapOf q) 0 (seedOrder (Suc k'))"
  have len: "length ?first = 2 ^ k'"
    by simp
  have "buildRounds k' 1 (int (length ?first)) (2 ^ k') ?first = Some (rounds k' 1 (int (2 ^ k')) ?first)"
    using buildRounds_rounds[OF len, of 1 "int (2 ^ k')"] by (simp only: len)
  then show ?thesis
    unfolding buildBracket_def bracketSizeOf_def builtBracket_def k Let_def
      finalSeedOrder_power log2_power half_power_Suc option.case diff_Suc_1
    by (simp only: option.case)
qed

lemma handleStartBracket_total:
  assumes "2 \<le> length (filter qualifies ps)"
  shows "handleStartBracket s ps
           = Inr (None, s\<lparr>bracket := builtBracket (qualifiedParticipants ps), phase := BRACKET\<rparr>)"
  using assms buildBracket_total[of "qualifiedParticipants ps"]
  by (simp add: handleStartBracket_def length_qualifiedParticipants MIN_PARTICIPANTS_def)

lemma handleStartBracket_cases:
  assumes "handleStartBracket s ps = Inr (a, s')"
  shows "(a = Some InsufficientQualifiers \<and> s' = s)
         \<or> (2 \<le> length (filter qualifies ps) \<and> a = None
             \<and> s' = s\<lparr>bracket := builtBracket (qualifiedParticipants ps), phase := BRACKET\<rparr>)"
proof (cases "2 \<le> length (filter qualifies ps)")
  case True
  then show ?thesis using assms handleStartBracket_total[OF True, of s] by simp
next
  case False
  then show ?thesis using assms
    by (simp add: handleStartBracket_def length_qualifiedParticipants MIN_PARTICIPANTS_def)
qed

section \<open>Finding and mutating a match\<close>

lemma find_mutateFirst:
  assumes "\<And>m. m_id (f m) = m_id m"
  shows "find (\<lambda>m. m_id m = k) (mutateFirst j f r)
           = (if k = j then map_option f (find (\<lambda>m. m_id m = k) r) else find (\<lambda>m. m_id m = k) r)"
  by (induction r) (auto simp: assms)

lemma findInBracket_mutateInBracket:
  assumes "\<And>m. m_id (f m) = m_id m"
  shows "findInBracket k (mutateInBracket j f b)
           = (if k = j then map_option f (findInBracket k b) else findInBracket k b)"
proof (induction b)
  case Nil
  then show ?case by simp
next
  case (Cons r rs)
  show ?case
  proof (cases "find (\<lambda>m. m_id m = j) r")
    case None
    then show ?thesis using Cons by (auto split: option.splits)
  next
    case (Some a)
    then show ?thesis
      by (auto simp: find_mutateFirst[of f, OF assms] split: option.splits)
  qed
qed

lemma m_id_placeWinner [simp]: "m_id (placeWinner idx w m) = m_id m"
  by (simp add: placeWinner_def Let_def split: option.splits)

lemma winner_placeWinner [simp]: "winner (placeWinner idx w m) = winner m"
  by (simp add: placeWinner_def Let_def split: option.splits)

lemma findInBracket_resolveMatch:
  assumes "findInBracket matchId b = Some m" and "winner m = None"
  shows "\<exists>m'. findInBracket matchId (resolveMatch b matchId w) = Some m' \<and> winner m' = Some w"
  using assms
  by (auto simp: resolveMatch_def Let_def findInBracket_mutateInBracket split: option.splits)

lemma bracket_handleSetWinner:
  "bracket (handleSetWinner s matchId w)
     = (if isThirdPlaceId s matchId then bracket s else resolveMatch (bracket s) matchId w)"
  by (simp add: handleSetWinner_def isThirdPlaceId_def Let_def split: option.splits)

lemma synthesizeThirdPlace_Some [simp]: "synthesizeThirdPlace b (Some t) = Some t"
  by (simp add: synthesizeThirdPlace_def)

lemma thirdPlaceMatch_handleSetWinner:
  "thirdPlaceMatch (handleSetWinner s matchId w) =
     (case thirdPlaceMatch s of
        Some t \<Rightarrow> if matchId = m_id t then Some (t\<lparr>winner := Some w\<rparr>) else Some t
      | None \<Rightarrow> synthesizeThirdPlace (resolveMatch (bracket s) matchId w) None)"
  by (simp add: handleSetWinner_def Let_def split: option.splits)

lemma phase_handleSetWinner:
  "phase (handleSetWinner s matchId w) = FINISHED \<or> phase (handleSetWinner s matchId w) = phase s"
  by (simp add: handleSetWinner_def Let_def split: option.splits prod.splits)

section \<open>Runs of the interface on the example data\<close>

lemma reachable_qualificationOf: "reachable (qualificationOf sts ps)"
proof -
  have "reachable (getInitialState\<lparr>standings := sts\<rparr>)"
    by (rule reachable.setStandings[OF reachable.initial]) (simp add: getInitialState_def)
  then have "reachable (handleStartCompetition (getInitialState\<lparr>standings := sts\<rparr>))"
    by (rule reachable.startCompetition) (simp add: getInitialState_def)
  then show ?thesis
    unfolding qualificationOf_def
    by (rule reachable.setCompetitionParticipants) (simp add: handleStartCompetition_def)
qed

lemma phase_qualificationOf: "phase (qualificationOf sts ps) = QUALIFICATION"
  by (simp add: qualificationOf_def handleStartCompetition_def)

lemma handleStartBracket_built:
  assumes "buildBracket (qualifiedParticipants ps) = Inr b" and "2 \<le> length (filter qualifies ps)"
  shows "handleStartBracket s ps = Inr (None, s\<lparr>bracket := b, phase := BRACKET\<rparr>)"
  using assms
  by (simp add: handleStartBracket_def length_qualifiedParticipants MIN_PARTICIPANTS_def)

lemma reachable_bracketStateOf:
  assumes "buildBracket (qualifiedParticipants ps) = Inr b" and "2 \<le> length (filter qualifies ps)"
  shows "reachable (bracketStateOf sts ps b)"
  using reachable.startBracket[OF reachable_qualificationOf phase_qualificationOf
      handleStartBracket_built[OF assms]]
  by (simp add: bracketStateOf_def)

lemma qualifiedParticipants_fourEntrants:
  "qualifiedParticipants fourEntrants = [ann, bob, cid, dan]"
  by code_simp

lemma buildBracket_fourEntrants: "buildBracket (qualifiedParticipants fourEntrants) = Inr bracketOfFour"
  by code_simp

lemma handleStartBracket_fourEntrants:
  "handleStartBracket s fourEntrants = Inr (None, s\<lparr>bracket := bracketOfFour, phase := BRACKET\<rparr>)"
  by (rule handleStartBracket_built[OF buildBracket_fourEntrants]) code_simp



lemma reachable_bracketStateOfThree: "reachable bracketStateOfThree"
  unfolding bracketStateOfThree_def by (rule reachable_bracketStateOf; code_simp)

lemma reachable_bracketStateOfFour: "reachable bracketStateOfFour"
  unfolding bracketStateOfFour_def by (rule reachable_bracketStateOf; code_simp)

lemma reachable_bracketStateOfSix: "reachable bracketStateOfSix"
  unfolding bracketStateOfSix_def by (rule reachable_bracketStateOf; code_simp)

lemma reachable_firstSemiFinalPlayed: "reachable firstSemiFinalPlayed"
  unfolding firstSemiFinalPlayed_def
  by (rule reachable.setWinner[OF reachable_bracketStateOfFour]; code_simp)

lemma reachable_semiFinalsPlayed: "reachable semiFinalsPlayed"
  unfolding semiFinalsPlayed_def
  by (rule reachable.setWinner[OF reachable_firstSemiFinalPlayed]; code_simp)

lemma reachable_thirdPlaceDecided: "reachable thirdPlaceDecided"
  unfolding thirdPlaceDecided_def
  by (rule reachable.setWinner[OF reachable_semiFinalsPlayed]; code_simp)

lemma reachable_sixSemiFinalsDecided: "reachable sixSemiFinalsDecided"
proof -
  have "reachable (handleSetWinner bracketStateOfSix 4 ann)"
    by (rule reachable.setWinner[OF reachable_bracketStateOfSix]; code_simp)
  then show ?thesis
    unfolding sixSemiFinalsDecided_def
    by (rule reachable.setWinner; code_simp)
qed

lemma reachable_sixFirstQuarterFinalPlayed: "reachable sixFirstQuarterFinalPlayed"
  unfolding sixFirstQuarterFinalPlayed_def
  by (rule reachable.setWinner[OF reachable_sixSemiFinalsDecided]; code_simp)

lemma reachable_sixQuarterFinalsPlayed: "reachable sixQuarterFinalsPlayed"
  unfolding sixQuarterFinalsPlayed_def
  by (rule reachable.setWinner[OF reachable_sixFirstQuarterFinalPlayed]; code_simp)

section \<open>setWinner on a match that has a winner\<close>

text \<open>
  C1, at a state the interface reaches. The third-place match of Cid and Dan has the
  winner Cid; the call \<^verbatim>\<open>setWinner(999, Dan)\<close>, with Dan one of its two slot participants,
  replaces the winner by Dan. The branch of lines 223 to 225 has no test of
  \<^verbatim>\<open>winner\<close>, where the branch of line 235 has one.
\<close>

theorem thirdPlace_winner_overwritten:
  "reachable thirdPlaceDecided
   \<and> map_option winner (thirdPlaceMatch thirdPlaceDecided) = Some (Some cid)
   \<and> phase thirdPlaceDecided = BRACKET
   \<and> isSlotParticipant thirdPlaceDecided 999 dan
   \<and> map_option winner (thirdPlaceMatch (handleSetWinner thirdPlaceDecided 999 dan)) = Some (Some dan)
   \<and> handleSetWinner thirdPlaceDecided 999 dan \<noteq> thirdPlaceDecided"
proof -
  have "map_option winner (thirdPlaceMatch thirdPlaceDecided) = Some (Some cid)" by code_simp
  moreover have "phase thirdPlaceDecided = BRACKET" by code_simp
  moreover have "isSlotParticipant thirdPlaceDecided 999 dan" by code_simp
  moreover have "map_option winner (thirdPlaceMatch (handleSetWinner thirdPlaceDecided 999 dan)) = Some (Some dan)"
    by code_simp
  moreover have "handleSetWinner thirdPlaceDecided 999 dan \<noteq> thirdPlaceDecided" by code_simp
  ultimately show ?thesis using reachable_thirdPlaceDecided by simp
qed

section \<open>setWinner with a participant of neither slot\<close>

text \<open>
  C2 as the specification states it fails. In the bracket of four, Eve is in neither slot
  of match 0, and \<^verbatim>\<open>setWinner(0, Eve)\<close> makes her its winner and puts her into the final;
  after the semifinals she is in neither slot of the third-place match of Cid and Dan,
  which has no winner yet, and \<^verbatim>\<open>setWinner(999, Eve)\<close> makes her its winner.
\<close>

theorem setWinner_accepts_outsider:
  "(reachable bracketStateOfFour \<and> reachable semiFinalsPlayed)
   \<and> (findInBracket 0 (bracket bracketStateOfFour) = Some (semiFinalsOfFour ! 0)
      \<and> participant1 (semiFinalsOfFour ! 0) = Some ann \<and> participant2 (semiFinalsOfFour ! 0) = Some dan
      \<and> eve \<noteq> ann \<and> eve \<noteq> dan
      \<and> findInBracket 0 (bracket (handleSetWinner bracketStateOfFour 0 eve))
          = Some ((semiFinalsOfFour ! 0)\<lparr>winner := Some eve\<rparr>)
      \<and> map_option participant1 (finalMatchOf (bracket (handleSetWinner bracketStateOfFour 0 eve)))
          = Some (Some eve)
      \<and> thirdPlaceMatch semiFinalsPlayed = Some (thirdPlaceOf (Some cid) (Some dan) None)
      \<and> eve \<noteq> cid
      \<and> thirdPlaceMatch (handleSetWinner semiFinalsPlayed 999 eve)
          = Some (thirdPlaceOf (Some cid) (Some dan) (Some eve)))"
proof (rule conjI)
  show "reachable bracketStateOfFour \<and> reachable semiFinalsPlayed"
    using reachable_bracketStateOfFour reachable_semiFinalsPlayed by (rule conjI)
  show "findInBracket 0 (bracket bracketStateOfFour) = Some (semiFinalsOfFour ! 0)
      \<and> participant1 (semiFinalsOfFour ! 0) = Some ann \<and> participant2 (semiFinalsOfFour ! 0) = Some dan
      \<and> eve \<noteq> ann \<and> eve \<noteq> dan
      \<and> findInBracket 0 (bracket (handleSetWinner bracketStateOfFour 0 eve))
          = Some ((semiFinalsOfFour ! 0)\<lparr>winner := Some eve\<rparr>)
      \<and> map_option participant1 (finalMatchOf (bracket (handleSetWinner bracketStateOfFour 0 eve)))
          = Some (Some eve)
      \<and> thirdPlaceMatch semiFinalsPlayed = Some (thirdPlaceOf (Some cid) (Some dan) None)
      \<and> eve \<noteq> cid
      \<and> thirdPlaceMatch (handleSetWinner semiFinalsPlayed 999 eve)
          = Some (thirdPlaceOf (Some cid) (Some dan) (Some eve))"
    by code_simp
qed

text \<open>
  C2, amended. handleSetWinner has no test of the winner against the two slots and
  rejects nothing: on the match it picks (the third-place match when the id is its id,
  else the match of that id in the bracket), when that match has no winner yet, the
  participant given becomes the winner, whoever it is.
\<close>

theorem setWinner_assigns_any_participant:
  "(thirdPlaceMatch s = Some t \<and> matchId = m_id t \<and> winner t = None \<longrightarrow>
      thirdPlaceMatch (handleSetWinner s matchId w) = Some (t\<lparr>winner := Some w\<rparr>))
   \<and> (\<not> isThirdPlaceId s matchId \<and> findInBracket matchId (bracket s) = Some m \<and> winner m = None \<longrightarrow>
      (\<exists>m'. findInBracket matchId (bracket (handleSetWinner s matchId w)) = Some m' \<and> winner m' = Some w))"
  using findInBracket_resolveMatch[of matchId "bracket s" m w]
  by (auto simp: thirdPlaceMatch_handleSetWinner bracket_handleSetWinner)

theorem setWinner_assigns_any_participant_witness:
  "\<not> isThirdPlaceId bracketStateOfFour 0
   \<and> findInBracket 0 (bracket bracketStateOfFour) = Some (semiFinalsOfFour ! 0)
   \<and> winner (semiFinalsOfFour ! 0) = None
   \<and> participant1 (semiFinalsOfFour ! 0) \<noteq> Some eve \<and> participant2 (semiFinalsOfFour ! 0) \<noteq> Some eve
   \<and> (\<exists>m'. findInBracket 0 (bracket (handleSetWinner bracketStateOfFour 0 eve)) = Some m'
             \<and> winner m' = Some eve)
   \<and> thirdPlaceMatch semiFinalsPlayed = Some (thirdPlaceOf (Some cid) (Some dan) None)
   \<and> winner (thirdPlaceOf (Some cid) (Some dan) None) = None
   \<and> thirdPlaceMatch (handleSetWinner semiFinalsPlayed 999 eve)
       = Some ((thirdPlaceOf (Some cid) (Some dan) None)\<lparr>winner := Some eve\<rparr>)"
proof -
  have a: "\<not> isThirdPlaceId bracketStateOfFour 0" by code_simp
  have b: "findInBracket 0 (bracket bracketStateOfFour) = Some (semiFinalsOfFour ! 0)" by code_simp
  have c: "winner (semiFinalsOfFour ! 0) = None" by code_simp
  have d: "participant1 (semiFinalsOfFour ! 0) \<noteq> Some eve \<and> participant2 (semiFinalsOfFour ! 0) \<noteq> Some eve"
    by code_simp
  have e: "thirdPlaceMatch semiFinalsPlayed = Some (thirdPlaceOf (Some cid) (Some dan) None)"
    by code_simp
  have f: "999 = m_id (thirdPlaceOf (Some cid) (Some dan) None)" by code_simp
  have g: "winner (thirdPlaceOf (Some cid) (Some dan) None) = None" by code_simp
  show ?thesis
    using a b c d e f g
      setWinner_assigns_any_participant [of bracketStateOfFour "semiFinalsOfFour ! 0" 0 eve "semiFinalsOfFour ! 0"]
      setWinner_assigns_any_participant [of semiFinalsPlayed "thirdPlaceOf (Some cid) (Some dan) None" 999 eve undefined]
    by simp
qed

section \<open>handleStartBracket and the third-place match\<close>

lemma reachable_qualification_no_thirdPlace:
  "reachable s \<Longrightarrow> phase s = QUALIFICATION \<Longrightarrow> thirdPlaceMatch s = None"
proof (induction rule: reachable.induct)
  case initial
  then show ?case by (simp add: getInitialState_def)
next
  case (startCompetition s)
  then show ?case by (simp add: handleStartCompetition_def)
next
  case (startBracket s ps a s')
  then show ?case using handleStartBracket_cases[OF startBracket(3)] by auto
next
  case (setWinner s matchId w)
  then show ?case using phase_handleSetWinner[of s matchId w] by auto
next
  case (returnToChampionship s)
  then show ?case by (simp add: handleReturnToChampionship_def Let_def)
qed simp_all



section \<open>registerParticipant: the two duplicate checks\<close>

text \<open>
  C9, at a database the mutations produce: Alice has registered and the admin has removed
  her standing, so that her name is in the registrations only. The registration of
  \<open>alice\<close> is accepted: the check of lines 208 to 212 compares the stored name with the
  trimmed name as it is, where the check of the standings compares in lower case.
\<close>

theorem registerParticipant_pending_check_case_sensitive:
  "registerParticipant \<lparr>sessions = [storedSession ''k3y-one'' []], registrations = [aliceRegistration]\<rparr>
     ''dmec-1'' ''alice'' 9 9 9
   = Inr (\<lparr>sessions = [(storedSession ''k3y-one''
                          [\<lparr>s_id = 9, s_name = ''alice'', pointsPerCompetition = []\<rparr>])\<lparr>updatedAt := 9\<rparr>],
           registrations = [aliceRegistration,
                            \<lparr>r_sessionId = ''dmec-1'', participantId = 9, r_name = ''alice'',
                             r_createdAt = 9, processed = False\<rparr>]\<rparr>,
          9, ''alice'')
   \<and> registerParticipant
        \<lparr>sessions = [storedSession ''k3y-one'' [\<lparr>s_id = 5, s_name = ''Alice'', pointsPerCompetition = []\<rparr>]],
         registrations = []\<rparr>
        ''dmec-1'' '' alice '' 9 9 9
      = Inl NameAlreadyRegistered"
  by code_simp

text \<open>
  The letters beyond Z: U+00DC is folded to U+00FC and the multiplication sign is kept;
  the no-break space is trimmed and U+0085 is not. The check of the standings rejects a
  name that differs from a standing's name in case and surrounding white space only.
\<close>

lemma toLowerCase_latin1:
  "toLowerCase (map char_of [65, 90, 192, 214, 215, 216, 220, 222, 223, 255 :: nat])
     = map char_of [97, 122, 224, 246, 215, 248, 252, 254, 223, 255 :: nat]
   \<and> trim (map char_of [160, 9, 32, 220, 32, 108, 133, 13, 10, 160 :: nat])
     = map char_of [220, 32, 108, 133 :: nat]"
  by code_simp

lemma registerParticipant_standings_check_folds_case:
  "registerParticipant
     \<lparr>sessions = [storedSession ''k3y-one''
                    [\<lparr>s_id = 5, s_name = char_of (220 :: nat) # ''lle'', pointsPerCompetition = []\<rparr>]],
      registrations = []\<rparr>
     ''dmec-1'' (char_of (160 :: nat) # char_of (252 :: nat) # ''lle '') 9 9 9
   = Inl NameAlreadyRegistered"
  by code_simp

section \<open>What resolveMatch changes\<close>

lemma stepRel_refl: "stepRel w nxt m m"
  by (simp add: stepRel_def)

lemma stepRel_trans: "stepRel w nxt a b \<Longrightarrow> stepRel w nxt b c \<Longrightarrow> stepRel w nxt a c"
  unfolding stepRel_def by (auto split: if_splits)

lemma stepRel_None_mono: "stepRel w None m m' \<Longrightarrow> stepRel w nxt m m'"
  unfolding stepRel_def by auto

lemma mutateFirst_rel:
  assumes "\<And>m. R m m" and "\<And>m. find (\<lambda>m. m_id m = j) r = Some m \<Longrightarrow> R m (f m)"
  shows "list_all2 R r (mutateFirst j f r)"
  using assms(2)
proof (induction r)
  case Nil
  then show ?case by simp
next
  case (Cons a r)
  then show ?case by (auto simp: assms(1) list_all2_refl)
qed

lemma mutateInBracket_rel:
  assumes "\<And>m. R m m" and "\<And>m. findInBracket j b = Some m \<Longrightarrow> R m (f m)"
  shows "list_all2 (list_all2 R) b (mutateInBracket j f b)"
  using assms(2)
proof (induction b)
  case Nil
  then show ?case by simp
next
  case (Cons r rs)
  have same: "list_all2 (list_all2 R) rs rs"
    by (simp add: assms(1) list_all2_refl)
  show ?case
  proof (cases "find (\<lambda>m. m_id m = j) r")
    case None
    then show ?thesis using Cons by (simp add: assms(1) list_all2_refl)
  next
    case (Some a)
    then have "list_all2 R r (mutateFirst j f r)"
      using Cons.prems by (intro mutateFirst_rel assms(1)) simp
    then show ?thesis using Some same by simp
  qed
qed

lemma slotsOf_placeWinner: "slotsOf (placeWinner idx w m) \<subseteq> slotsOf m \<union> {w}"
  by (auto simp: slotsOf_def placeWinner_def Let_def split: option.splits if_splits)

lemma stepRel_placeWinner: "stepRel w (Some (m_id m)) m (placeWinner idx w m)"
  using slotsOf_placeWinner[of idx w m]
  by (auto simp: stepRel_def placeWinner_def Let_def split: option.splits)

lemma stepRel_setWinner: "winner m = None \<Longrightarrow> stepRel w nxt m (m\<lparr>winner := Some w\<rparr>)"
  by (simp add: stepRel_def slotsOf_def)

lemma find_SomeD: "find P xs = Some x \<Longrightarrow> P x \<and> x \<in> set xs"
  by (induction xs) (auto split: if_splits)

lemma findInBracket_SomeD: "findInBracket j b = Some m \<Longrightarrow> m_id m = j \<and> m \<in> set (concat b)"
proof (induction b)
  case Nil
  then show ?case by simp
next
  case (Cons r rs)
  show ?case
  proof (cases "find (\<lambda>m. m_id m = j) r")
    case None
    then show ?thesis using Cons by simp
  next
    case (Some a)
    then have "a = m" using Cons.prems by simp
    then show ?thesis using find_SomeD[OF Some] by simp
  qed
qed

lemma findInBracket_id: "findInBracket j b = Some m \<Longrightarrow> m_id m = j"
  by (simp add: findInBracket_SomeD)

lemma findInBracket_mem: "findInBracket j b = Some m \<Longrightarrow> m \<in> set (concat b)"
  using findInBracket_SomeD by blast

lemma stepRel_nested_trans:
  assumes "list_all2 (list_all2 (stepRel w nxt)) x y" and "list_all2 (list_all2 (stepRel w nxt)) y z"
  shows "list_all2 (list_all2 (stepRel w nxt)) x z"
proof -
  have inner: "list_all2 (stepRel w nxt) a c"
    if "list_all2 (stepRel w nxt) a b" "list_all2 (stepRel w nxt) b c" for a b c
    by (rule list_all2_trans[OF _ that]) (rule stepRel_trans)
  show ?thesis
    by (rule list_all2_trans[OF _ assms]) (rule inner)
qed

lemma resolveMatch_rel:
  "list_all2 (list_all2 (stepRel w (resolveNext b matchId))) b (resolveMatch b matchId w)"
proof (cases "findInBracket matchId b")
  case None
  then show ?thesis
    by (simp add: resolveMatch_def list_all2_refl stepRel_refl)
next
  case (Some mu)
  show ?thesis
  proof (cases "winner mu = None")
    case False
    then show ?thesis using Some
      by (simp add: resolveMatch_def list_all2_refl stepRel_refl)
  next
    case True
    let ?b1 = "mutateInBracket matchId (\<lambda>m. m\<lparr>winner := Some w\<rparr>) b"
    have nxt: "resolveNext b matchId = nextMatchId mu"
      using Some True by (simp add: resolveNext_def)
    have first: "list_all2 (list_all2 (stepRel w (nextMatchId mu))) b ?b1"
      by (rule mutateInBracket_rel) (auto simp: stepRel_refl Some True intro: stepRel_setWinner)
    show ?thesis
    proof (cases "nextMatchId mu")
      case None
      then show ?thesis using first Some True nxt by (simp add: resolveMatch_def Let_def)
    next
      case (Some nid)
      let ?b2 = "mutateInBracket nid (placeWinner (matchIndex mu) w) ?b1"
      have "list_all2 (list_all2 (stepRel w (Some nid))) ?b1 ?b2"
      proof (rule mutateInBracket_rel)
        fix m assume "findInBracket nid ?b1 = Some m"
        then have "m_id m = nid" by (rule findInBracket_id)
        then show "stepRel w (Some nid) m (placeWinner (matchIndex mu) w m)"
          using stepRel_placeWinner[of w m] by simp
      qed (rule stepRel_refl)
      moreover have "list_all2 (list_all2 (stepRel w (Some nid))) b ?b1"
        using first Some by simp
      ultimately have "list_all2 (list_all2 (stepRel w (Some nid))) b ?b2"
        using stepRel_nested_trans by blast
      then show ?thesis
        using \<open>findInBracket matchId b = Some mu\<close> True Some nxt
        by (simp add: resolveMatch_def Let_def)
    qed
  qed
qed

section \<open>Brackets related by resolveMatch\<close>

lemma nested_rel_length: "list_all2 (list_all2 R) b b' \<Longrightarrow> length b' = length b"
  by (simp add: list_all2_lengthD)

lemma nested_rel_nth: "list_all2 (list_all2 R) b b' \<Longrightarrow> i < length b \<Longrightarrow> list_all2 R (b ! i) (b' ! i)"
  by (simp add: list_all2_nthD)

lemma nested_rel_mem:
  assumes "list_all2 (list_all2 R) b b'" and "m' \<in> set (concat b')"
  shows "\<exists>m \<in> set (concat b). R m m'"
proof -
  from assms(2) obtain r' where r': "r' \<in> set b'" "m' \<in> set r'" by auto
  then obtain i where i: "i < length b'" "b' ! i = r'" by (auto simp: in_set_conv_nth)
  have len: "length b' = length b" using assms(1) by (rule nested_rel_length)
  have rel: "list_all2 R (b ! i) r'" using nested_rel_nth[OF assms(1), of i] i len by simp
  from r'(2) obtain j where j: "j < length r'" "r' ! j = m'" by (auto simp: in_set_conv_nth)
  have "R (b ! i ! j) m'" using list_all2_nthD2[OF rel j(1)] j(2) by simp
  moreover have "b ! i ! j \<in> set (concat b)"
    using i len j list_all2_lengthD[OF rel] by (auto intro!: bexI[of _ "b ! i"])
  ultimately show ?thesis by blast
qed

lemma wfShape_rel:
  assumes "list_all2 (list_all2 R) b b'" and "wfShape b"
  shows "wfShape b'"
  unfolding wfShape_def
proof (intro allI impI)
  fix i assume "i < length b'"
  then have i: "i < length b" using nested_rel_length[OF assms(1)] by simp
  have "length (b' ! i) = length (b ! i)"
    using nested_rel_nth[OF assms(1) i] by (simp add: list_all2_lengthD)
  then show "length (b' ! i) = 2 ^ (length b' - 1 - i)"
    using assms(2) i nested_rel_length[OF assms(1)] by (simp add: wfShape_def)
qed

lemma length_semiFinals:
  assumes "wfShape b" and "1 < length b"
  shows "length (semiFinalsOf b) = 2"
proof -
  have "length b - 2 < length b" using assms(2) by simp
  then have "length (b ! (length b - 2)) = 2 ^ (length b - 1 - (length b - 2))"
    using assms(1) by (simp add: wfShape_def)
  moreover have "length b - 1 - (length b - 2) = 1" using assms(2) by simp
  ultimately show ?thesis by (simp add: semiFinalsOf_def)
qed

lemma semiFinals_rel:
  "list_all2 (list_all2 R) b b' \<Longrightarrow> 1 < length b \<Longrightarrow> list_all2 R (semiFinalsOf b) (semiFinalsOf b')"
  unfolding semiFinalsOf_def
  by (simp add: list_all2_lengthD list_all2_nthD)

lemma findLoser_None_iff: "findLoser m = None \<longleftrightarrow> participant1 m = None \<or> participant2 m = None"
  by (simp add: findLoser_def split: option.splits)

lemma losersOf_Nil_iff: "losersOf xs = [] \<longleftrightarrow> (\<forall>m \<in> set xs. participant1 m = None \<or> participant2 m = None)"
  by (induction xs) (auto simp: losersOf_def List.map_filter_def findLoser_None_iff)

lemma length_losersOf: "length (losersOf xs) \<le> length xs"
  by (simp add: losersOf_def List.map_filter_def)

lemma allWinners_rel:
  "list_all2 (stepRel w nxt) xs ys \<Longrightarrow> list_all (\<lambda>m. winner m \<noteq> None) xs \<Longrightarrow> list_all (\<lambda>m. winner m \<noteq> None) ys"
  by (induction rule: list_all2_induct) (auto simp: stepRel_def)

lemma losers_rel:
  "list_all2 (stepRel w nxt) xs ys \<Longrightarrow> losersOf xs \<noteq> [] \<Longrightarrow> losersOf ys \<noteq> []"
  unfolding losersOf_Nil_iff
  by (induction rule: list_all2_induct) (auto simp: stepRel_def)

lemma thirdPlaceDue_rel:
  assumes "list_all2 (list_all2 (stepRel w nxt)) b b'" and "thirdPlaceDue b"
  shows "thirdPlaceDue b'"
  using assms semiFinals_rel[OF assms(1)] allWinners_rel losers_rel
  unfolding thirdPlaceDue_def by (auto simp: nested_rel_length)

lemma synthesize_None_iff:
  "synthesizeThirdPlace b None = None \<longleftrightarrow>
     \<not> (1 < length b \<and> list_all (\<lambda>m. winner m \<noteq> None) (semiFinalsOf b)
         \<and> (length (losersOf (semiFinalsOf b)) = 1 \<or> length (losersOf (semiFinalsOf b)) = 2))"
  by (simp add: synthesizeThirdPlace_def Let_def)

lemma synthesize_due:
  assumes "wfShape b"
  shows "synthesizeThirdPlace b None \<noteq> None \<longleftrightarrow> thirdPlaceDue b"
proof (cases "1 < length b")
  case False
  then show ?thesis by (simp add: synthesize_None_iff thirdPlaceDue_def)
next
  case True
  then have "length (semiFinalsOf b) = 2"
    using assms by (rule length_semiFinals[rotated])
  then have "length (losersOf (semiFinalsOf b)) \<le> 2"
    using length_losersOf[of "semiFinalsOf b"] by simp
  moreover have "losersOf (semiFinalsOf b) \<noteq> [] \<longleftrightarrow> 0 < length (losersOf (semiFinalsOf b))"
    by simp
  ultimately have "(length (losersOf (semiFinalsOf b)) = 1 \<or> length (losersOf (semiFinalsOf b)) = 2)
        \<longleftrightarrow> losersOf (semiFinalsOf b) \<noteq> []"
    by linarith
  then show ?thesis using True by (simp add: synthesize_None_iff thirdPlaceDue_def)
qed

section \<open>The bracket that handleStartBracket builds\<close>

lemma length_rounds [simp]: "length (rounds left r c prev) = Suc left"
  by (induction left arbitrary: r c prev) simp_all

lemma length_linkedRound [simp]: "length (linkedRound c prev) = length prev"
  by (simp add: linkedRound_def)

lemma rounds_head: "rounds left r c prev ! 0 = (case left of 0 \<Rightarrow> prev | Suc l \<Rightarrow> linkedRound c prev)"
  by (cases left) simp_all

lemma length_rounds_nth:
  "length prev = 2 ^ left \<Longrightarrow> i \<le> left \<Longrightarrow> length (rounds left r c prev ! i) = 2 ^ (left - i)"
proof (induction left arbitrary: r c prev i)
  case 0
  then show ?case by simp
next
  case (Suc left)
  show ?case
  proof (cases i)
    case 0
    then show ?thesis using Suc.prems by simp
  next
    case (Suc j)
    then show ?thesis using Suc.prems Suc.IH[of "makeRound c r (2 ^ left) prev" j] by simp
  qed
qed

lemma nth_linkedRound:
  "j < length prev \<Longrightarrow> linkedRound c prev ! j = (prev ! j)\<lparr>nextMatchId := Some (c + int (j div 2))\<rparr>"
  by (simp add: linkedRound_def nth_enumerate_eq)

lemma winner_linkedRound: "m \<in> set (linkedRound c prev) \<Longrightarrow> \<exists>m0 \<in> set prev. winner m = winner m0"
  by (auto simp: linkedRound_def in_set_enumerate_eq)

lemma winner_makeRound: "m \<in> set (makeRound c r n prev) \<Longrightarrow> winner m = None"
  by (auto simp: makeRound_def laterRoundMatch_def split: prod.splits)

lemma winner_rounds_later:
  "0 < i \<Longrightarrow> i \<le> left \<Longrightarrow> m \<in> set (rounds left r c prev ! i) \<Longrightarrow> winner m = None"
proof (induction left arbitrary: r c prev i)
  case 0
  then show ?case by simp
next
  case (Suc left)
  let ?cur = "makeRound c r (2 ^ left) prev"
  obtain j where j: "i = Suc j" using Suc.prems(1) by (cases i) auto
  then have mem: "m \<in> set (rounds left (r + 1) (c + int (2 ^ left)) ?cur ! j)"
    using Suc.prems by simp
  show ?case
  proof (cases j)
    case 0
    then have "m \<in> set ?cur \<or> m \<in> set (linkedRound (c + int (2 ^ left)) ?cur)"
      using mem by (simp add: rounds_head split: nat.splits)
    then show ?thesis using winner_makeRound[of _ c r "2 ^ left" prev] winner_linkedRound[of m "c + int (2 ^ left)" ?cur]
      by auto
  next
    case (Suc j')
    then show ?thesis using Suc.IH[of j "r + 1" "c + int (2 ^ left)" ?cur] mem j Suc.prems(2) by simp
  qed
qed

lemma wfShape_builtBracket:
  assumes "2 \<le> length q"
  shows "wfShape (builtBracket q)"
proof -
  obtain k' where k: "ceil_log2 (length q) = Suc k'"
    using ceil_log2_pos[OF assms] by (cases "ceil_log2 (length q)") auto
  let ?first = "firstRoundFrom (participantMapOf q) 0 (seedOrder (Suc k'))"
  have len: "length ?first = 2 ^ k'" by simp
  have b: "builtBracket q = rounds k' 1 (int (2 ^ k')) ?first"
    by (simp add: builtBracket_def k Let_def del: power_Suc)
  show ?thesis
    unfolding wfShape_def b
    using length_rounds_nth[OF len] by simp
qed

lemma participantMap_fold_map_of:
  "fold (\<lambda>p m. m(seed p \<mapsto> p)) xs m0 = m0 ++ map_of (rev (map (\<lambda>p. (seed p, p)) xs))"
proof (induction xs arbitrary: m0)
  case Nil
  then show ?case by simp
next
  case (Cons x xs)
  have "fold (\<lambda>p m. m(seed p \<mapsto> p)) (x # xs) m0 = fold (\<lambda>p m. m(seed p \<mapsto> p)) xs (m0(seed x \<mapsto> x))"
    by (simp only: fold_simps o_apply)
  also have "\<dots> = m0(seed x \<mapsto> x) ++ map_of (rev (map (\<lambda>p. (seed p, p)) xs))"
    by (rule Cons.IH)
  also have "\<dots> = m0 ++ (map_of [(seed x, x)] ++ map_of (rev (map (\<lambda>p. (seed p, p)) xs)))"
    by (rule ext) (simp add: map_add_def split: option.splits)
  also have "map_of [(seed x, x)] ++ map_of (rev (map (\<lambda>p. (seed p, p)) xs))
        = map_of (rev (map (\<lambda>p. (seed p, p)) (x # xs)))"
    by (simp add: map_of_append)
  finally show ?case .
qed

lemma participantMapOf_map_of:
  "participantMapOf xs = map_of (rev (map (\<lambda>p. (seed p, p)) xs))"
  by (simp add: participantMapOf_def participantMap_fold_map_of)

lemma participantMapOf_seed: "participantMapOf xs s = Some p \<Longrightarrow> seed p = s"
  unfolding participantMapOf_map_of by (auto dest!: map_of_SomeD)

lemma participantMapOf_None_iff: "participantMapOf xs s = None \<longleftrightarrow> s \<notin> seed ` set xs"
  unfolding participantMapOf_map_of by (simp add: map_of_eq_None_iff image_image)

lemma map_seed_enumerate:
  "map seed (map (\<lambda>(i, p). p\<lparr>seed := int i + 1\<rparr>) (enumerate k xs)) = map (\<lambda>i. int i + 1) [k..<k + length xs]"
proof (induction xs arbitrary: k)
  case Nil
  then show ?case by simp
next
  case (Cons x xs)
  have "[k..<k + length (x # xs)] = k # [Suc k..<Suc k + length xs]"
    by (subst upt_rec) simp
  then show ?case using Cons.IH[of "Suc k"] by simp
qed

lemma map_seed_qualifiedParticipants:
  "map seed (qualifiedParticipants ps) = map (\<lambda>i. int i + 1) [0..<length (qualifiedParticipants ps)]"
proof -
  have "length (qualifiedParticipants ps) = length (sortByScoreDesc (filter qualifies ps))"
    by (simp add: qualifiedParticipants_def)
  then show ?thesis
    unfolding qualifiedParticipants_def
    using map_seed_enumerate[of 0 "sortByScoreDesc (filter qualifies ps)"] by simp
qed

lemma seeds_qualifiedParticipants:
  "seed ` set (qualifiedParticipants ps) = {1..int (length (qualifiedParticipants ps))}"
proof -
  have "seed ` set (qualifiedParticipants ps) = set (map seed (qualifiedParticipants ps))" by simp
  also have "\<dots> = (\<lambda>i. int i + 1) ` {0..<length (qualifiedParticipants ps)}"
    unfolding map_seed_qualifiedParticipants by simp
  also have "\<dots> = {1..int (length (qualifiedParticipants ps))}"
  proof (intro equalityI subsetI)
    fix s assume "s \<in> {1..int (length (qualifiedParticipants ps))}"
    then have "s = int (nat (s - 1)) + 1" "nat (s - 1) < length (qualifiedParticipants ps)" by auto
    then show "s \<in> (\<lambda>i. int i + 1) ` {0..<length (qualifiedParticipants ps)}"
      by (metis (no_types, lifting) atLeastLessThan_iff imageI zero_le)
  qed auto
  finally show ?thesis .
qed

lemma seedOrder_2: "seedOrder 2 = [1, 4, 2, 3]"
  by (simp add: seedOrder_def numeral_2_eq_2 nextSeeds_def)

lemma not_due_builtBracket:
  assumes "2 \<le> length (qualifiedParticipants ps)"
  shows "\<not> thirdPlaceDue (builtBracket (qualifiedParticipants ps))"
proof -
  let ?q = "qualifiedParticipants ps"
  obtain k' where k: "ceil_log2 (length ?q) = Suc k'"
    using ceil_log2_pos[OF assms] by (cases "ceil_log2 (length ?q)") auto
  let ?first = "firstRoundFrom (participantMapOf ?q) 0 (seedOrder (Suc k'))"
  have len: "length ?first = 2 ^ k'" by simp
  have b: "builtBracket ?q = rounds k' 1 (int (2 ^ k')) ?first"
    by (simp add: builtBracket_def k Let_def del: power_Suc)
  consider "k' = 0" | "k' = 1" | "2 \<le> k'" by linarith
  then show ?thesis
  proof cases
    case 1
    then show ?thesis by (simp add: thirdPlaceDue_def b)
  next
    case 2
    have "2 ^ (ceil_log2 (length ?q) - 1) < length ?q" using assms by (rule ceil_log2_least)
    then have n: "3 \<le> length ?q" using k 2 by simp
    have "participantMapOf ?q 2 \<noteq> None" "participantMapOf ?q 3 \<noteq> None"
      unfolding participantMapOf_None_iff seeds_qualifiedParticipants using n by simp_all
    then obtain x y where xy: "participantMapOf ?q 2 = Some x" "participantMapOf ?q 3 = Some y" by auto
    have "winner (semiFinalsOf (builtBracket ?q) ! 1) = None"
      using xy by (simp add: b 2 semiFinalsOf_def seedOrder_2[unfolded numeral_2_eq_2] numeral_2_eq_2
          nth_linkedRound firstRoundMatch_def)
    moreover have "length (semiFinalsOf (builtBracket ?q)) = 2"
      by (simp add: b 2 semiFinalsOf_def)
    then have "semiFinalsOf (builtBracket ?q) ! 1 \<in> set (semiFinalsOf (builtBracket ?q))"
      by simp
    ultimately have "\<not> list_all (\<lambda>m. winner m \<noteq> None) (semiFinalsOf (builtBracket ?q))"
      unfolding list_all_iff by blast
    then show ?thesis by (simp add: thirdPlaceDue_def)
  next
    case 3
    then have i: "0 < k' - 1" "k' - 1 \<le> k'" by simp_all
    have semis: "semiFinalsOf (builtBracket ?q) = rounds k' 1 (int (2 ^ k')) ?first ! (k' - 1)"
      by (simp add: semiFinalsOf_def b)
    have "length (semiFinalsOf (builtBracket ?q)) = 2 ^ (k' - (k' - 1))"
      unfolding semis using length_rounds_nth[OF len i(2)] by simp
    then have "semiFinalsOf (builtBracket ?q) \<noteq> []" by auto
    then obtain m where m: "m \<in> set (semiFinalsOf (builtBracket ?q))"
      by (cases "semiFinalsOf (builtBracket ?q)") auto
    then have "winner m = None"
      unfolding semis using winner_rounds_later[OF i] by blast
    then have "\<not> list_all (\<lambda>m. winner m \<noteq> None) (semiFinalsOf (builtBracket ?q))"
      using m by (auto simp: list_all_iff)
    then show ?thesis by (simp add: thirdPlaceDue_def)
  qed
qed

section \<open>The third-place match\<close>

lemma bracket_handleSetWinner_rel:
  "\<exists>nxt. list_all2 (list_all2 (stepRel w nxt)) (bracket s) (bracket (handleSetWinner s matchId w))"
proof (cases "isThirdPlaceId s matchId")
  case True
  then have "list_all2 (list_all2 (stepRel w None)) (bracket s) (bracket (handleSetWinner s matchId w))"
    by (simp add: bracket_handleSetWinner list_all2_refl stepRel_refl)
  then show ?thesis ..
next
  case False
  then show ?thesis using resolveMatch_rel[of w "bracket s" matchId]
    by (auto simp: bracket_handleSetWinner)
qed

lemma thirdPlaceInv_handleSetWinner:
  assumes "thirdPlaceInv s"
  shows "thirdPlaceInv (handleSetWinner s matchId w)"
proof -
  let ?s' = "handleSetWinner s matchId w"
  obtain nxt where rel: "list_all2 (list_all2 (stepRel w nxt)) (bracket s) (bracket ?s')"
    using bracket_handleSetWinner_rel by blast
  have wf: "wfShape (bracket ?s')"
    using wfShape_rel[OF rel] assms by (simp add: thirdPlaceInv_def)
  show ?thesis
  proof (cases "thirdPlaceMatch s")
    case None
    then have "bracket ?s' = resolveMatch (bracket s) matchId w"
      by (simp add: bracket_handleSetWinner isThirdPlaceId_def)
    moreover have "thirdPlaceMatch ?s' = synthesizeThirdPlace (resolveMatch (bracket s) matchId w) None"
      using None by (simp add: thirdPlaceMatch_handleSetWinner)
    ultimately show ?thesis using wf synthesize_due[of "bracket ?s'"]
      by (simp add: thirdPlaceInv_def)
  next
    case (Some t)
    then have "thirdPlaceDue (bracket s)" using assms by (simp add: thirdPlaceInv_def)
    then have "thirdPlaceDue (bracket ?s')" using rel by (rule thirdPlaceDue_rel[rotated])
    moreover have "thirdPlaceMatch ?s' \<noteq> None"
      using Some by (simp add: thirdPlaceMatch_handleSetWinner)
    ultimately show ?thesis using wf by (simp add: thirdPlaceInv_def)
  qed
qed

lemma reachable_thirdPlaceInv: "reachable s \<Longrightarrow> thirdPlaceInv s"
proof (induction rule: reachable.induct)
  case initial
  then show ?case by (simp add: thirdPlaceInv_def getInitialState_def wfShape_def thirdPlaceDue_def)
next
  case (startCompetition s)
  then show ?case by (simp add: thirdPlaceInv_def handleStartCompetition_def wfShape_def thirdPlaceDue_def)
next
  case (startBracket s ps a s')
  from handleStartBracket_cases[OF startBracket(3)] show ?case
  proof
    assume "a = Some InsufficientQualifiers \<and> s' = s"
    then show ?thesis using startBracket.IH by simp
  next
    assume built: "2 \<le> length (filter qualifies ps) \<and> a = None
      \<and> s' = s\<lparr>bracket := builtBracket (qualifiedParticipants ps), phase := BRACKET\<rparr>"
    then have two: "2 \<le> length (qualifiedParticipants ps)"
      by (simp add: length_qualifiedParticipants)
    have "thirdPlaceMatch s = None"
      using startBracket.hyps(1,2) by (rule reachable_qualification_no_thirdPlace)
    then show ?thesis
      using built wfShape_builtBracket[OF two] not_due_builtBracket[OF two]
      by (simp add: thirdPlaceInv_def)
  qed
next
  case (setWinner s matchId w)
  then show ?case by (simp add: thirdPlaceInv_handleSetWinner)
next
  case (returnToChampionship s)
  then show ?case by (simp add: thirdPlaceInv_def handleReturnToChampionship_def Let_def)
qed (simp_all add: thirdPlaceInv_def)

lemma synthesize_created:
  assumes "synthesizeThirdPlace b None = Some t"
  shows "(length (losersOf (semiFinalsOf b)) = 1 \<and> participant2 t = None
            \<and> winner t = participant1 t \<and> participant1 t \<noteq> None)
         \<or> (length (losersOf (semiFinalsOf b)) = 2 \<and> participant1 t \<noteq> None
            \<and> participant2 t \<noteq> None \<and> winner t = None)"
  using assms
  by (auto simp: synthesizeThirdPlace_def Let_def thirdPlaceOf_def split: if_splits)

text \<open>
  C3, amended. In every reachable state a third-place match exists if and only if the
  bracket has two rounds or more, both matches of the second-to-last round have winners
  and one of them at least has both slots filled (a semifinal loser exists). When a call
  of handleSetWinner creates the third-place match, it has a winner set in advance and an
  empty second slot if exactly one semifinal loser exists then, and both slots filled and
  no winner if two exist. With one round or none, no third-place match exists and none is
  created.
\<close>

theorem thirdPlace_exists_iff_semifinals_decided_with_loser:
  assumes "reachable s"
  shows "((thirdPlaceMatch s \<noteq> None) =
            (1 < length (bracket s) \<and> list_all (\<lambda>m. winner m \<noteq> None) (semiFinalsOf (bracket s))
             \<and> losersOf (semiFinalsOf (bracket s)) \<noteq> []))
         \<and> (1 < length (bracket s) \<longrightarrow> length (semiFinalsOf (bracket s)) = 2)
         \<and> (thirdPlaceMatch s = None \<and> thirdPlaceMatch (handleSetWinner s matchId w) = Some t \<longrightarrow>
              (length (losersOf (semiFinalsOf (bracket (handleSetWinner s matchId w)))) = 1
                 \<and> participant2 t = None \<and> winner t = participant1 t \<and> participant1 t \<noteq> None)
              \<or> (length (losersOf (semiFinalsOf (bracket (handleSetWinner s matchId w)))) = 2
                 \<and> participant1 t \<noteq> None \<and> participant2 t \<noteq> None \<and> winner t = None))
         \<and> (length (bracket s) \<le> 1 \<longrightarrow>
              thirdPlaceMatch s = None \<and> thirdPlaceMatch (handleSetWinner s matchId w) = None)"
proof -
  have inv: "thirdPlaceInv s" using assms by (rule reachable_thirdPlaceInv)
  have inv': "thirdPlaceInv (handleSetWinner s matchId w)"
    using inv by (rule thirdPlaceInv_handleSetWinner)
  obtain nxt where rel: "list_all2 (list_all2 (stepRel w nxt)) (bracket s) (bracket (handleSetWinner s matchId w))"
    using bracket_handleSetWinner_rel by blast
  have len: "length (bracket (handleSetWinner s matchId w)) = length (bracket s)"
    using rel by (rule nested_rel_length)
  have first: "(thirdPlaceMatch s \<noteq> None) =
            (1 < length (bracket s) \<and> list_all (\<lambda>m. winner m \<noteq> None) (semiFinalsOf (bracket s))
             \<and> losersOf (semiFinalsOf (bracket s)) \<noteq> [])"
    using inv by (simp add: thirdPlaceInv_def thirdPlaceDue_def)
  have second: "1 < length (bracket s) \<longrightarrow> length (semiFinalsOf (bracket s)) = 2"
    using inv length_semiFinals by (simp add: thirdPlaceInv_def)
  have third: "thirdPlaceMatch s = None \<and> thirdPlaceMatch (handleSetWinner s matchId w) = Some t \<longrightarrow>
              (length (losersOf (semiFinalsOf (bracket (handleSetWinner s matchId w)))) = 1
                 \<and> participant2 t = None \<and> winner t = participant1 t \<and> participant1 t \<noteq> None)
              \<or> (length (losersOf (semiFinalsOf (bracket (handleSetWinner s matchId w)))) = 2
                 \<and> participant1 t \<noteq> None \<and> participant2 t \<noteq> None \<and> winner t = None)"
  proof (intro impI, elim conjE)
    assume none: "thirdPlaceMatch s = None" and some: "thirdPlaceMatch (handleSetWinner s matchId w) = Some t"
    have b: "bracket (handleSetWinner s matchId w) = resolveMatch (bracket s) matchId w"
      using none by (simp add: bracket_handleSetWinner isThirdPlaceId_def)
    have "synthesizeThirdPlace (resolveMatch (bracket s) matchId w) None = Some t"
      using none some by (simp add: thirdPlaceMatch_handleSetWinner)
    then show "(length (losersOf (semiFinalsOf (bracket (handleSetWinner s matchId w)))) = 1
                 \<and> participant2 t = None \<and> winner t = participant1 t \<and> participant1 t \<noteq> None)
              \<or> (length (losersOf (semiFinalsOf (bracket (handleSetWinner s matchId w)))) = 2
                 \<and> participant1 t \<noteq> None \<and> participant2 t \<noteq> None \<and> winner t = None)"
      unfolding b by (rule synthesize_created)
  qed
  have fourth: "length (bracket s) \<le> 1 \<longrightarrow>
              thirdPlaceMatch s = None \<and> thirdPlaceMatch (handleSetWinner s matchId w) = None"
    using inv inv' len by (auto simp: thirdPlaceInv_def thirdPlaceDue_def)
  show ?thesis using first second third fourth by blast
qed

text \<open>
  C3 as the specification states it fails at states the interface reaches. With six
  entrants, once Ann and Bob are chosen as the winners of their semifinals while the
  second slots are empty, both semifinals have winners and no third-place match exists
  (there is no loser). After the quarterfinals are played the semifinals have the two
  losers Dan and Cid, and the third-place match, created when Dan was the only loser,
  has Dan as its winner set in advance and an empty second slot.
\<close>

theorem semifinals_decided_without_thirdPlace:
  "reachable sixSemiFinalsDecided
   \<and> length (bracket sixSemiFinalsDecided) = 3
   \<and> map winner (semiFinalsOf (bracket sixSemiFinalsDecided)) = [Some ann, Some bob]
   \<and> thirdPlaceMatch sixSemiFinalsDecided = None
   \<and> reachable sixQuarterFinalsPlayed
   \<and> losersOf (semiFinalsOf (bracket sixQuarterFinalsPlayed)) = [dan, cid]
   \<and> thirdPlaceMatch sixQuarterFinalsPlayed = Some (thirdPlaceOf (Some dan) None (Some dan))"
proof -
  have "length (bracket sixSemiFinalsDecided) = 3" by code_simp
  moreover have "map winner (semiFinalsOf (bracket sixSemiFinalsDecided)) = [Some ann, Some bob]"
    by code_simp
  moreover have "thirdPlaceMatch sixSemiFinalsDecided = None" by code_simp
  moreover have "losersOf (semiFinalsOf (bracket sixQuarterFinalsPlayed)) = [dan, cid]" by code_simp
  moreover have "thirdPlaceMatch sixQuarterFinalsPlayed = Some (thirdPlaceOf (Some dan) None (Some dan))"
    by code_simp
  ultimately show ?thesis
    using reachable_sixSemiFinalsDecided reachable_sixQuarterFinalsPlayed by simp
qed

theorem thirdPlace_exists_iff_semifinals_decided_with_loser_witness:
  "reachable firstSemiFinalPlayed \<and> thirdPlaceMatch firstSemiFinalPlayed = None
   \<and> thirdPlaceMatch (handleSetWinner firstSemiFinalPlayed 1 bob) = Some (thirdPlaceOf (Some cid) (Some dan) None)
   \<and> length (losersOf (semiFinalsOf (bracket (handleSetWinner firstSemiFinalPlayed 1 bob)))) = 2
   \<and> reachable bracketStateOfThree \<and> thirdPlaceMatch bracketStateOfThree = None
   \<and> thirdPlaceMatch (handleSetWinner bracketStateOfThree 1 bob) = Some (thirdPlaceOf (Some cid) None (Some cid))
   \<and> length (losersOf (semiFinalsOf (bracket (handleSetWinner bracketStateOfThree 1 bob)))) = 1
   \<and> length (semiFinalsOf (bracket bracketStateOfThree)) = 2"
proof -
  have a: "thirdPlaceMatch firstSemiFinalPlayed = None" by code_simp
  have b: "thirdPlaceMatch (handleSetWinner firstSemiFinalPlayed 1 bob) = Some (thirdPlaceOf (Some cid) (Some dan) None)"
    by code_simp
  have c: "thirdPlaceMatch bracketStateOfThree = None" by code_simp
  have d: "thirdPlaceMatch (handleSetWinner bracketStateOfThree 1 bob) = Some (thirdPlaceOf (Some cid) None (Some cid))"
    by code_simp
  have e: "participant2 (thirdPlaceOf (Some cid) (Some dan) None) \<noteq> None"
    "participant2 (thirdPlaceOf (Some cid) None (Some cid)) = None"
    "winner (thirdPlaceOf (Some cid) None (Some cid)) \<noteq> None"
    "1 < length (bracket bracketStateOfThree)"
    by (simp_all add: thirdPlaceOf_def) code_simp
  show ?thesis
    using a b c d e reachable_firstSemiFinalPlayed reachable_bracketStateOfThree
      thirdPlace_exists_iff_semifinals_decided_with_loser [OF reachable_firstSemiFinalPlayed, of 1 bob "thirdPlaceOf (Some cid) (Some dan) None"]
      thirdPlace_exists_iff_semifinals_decided_with_loser [OF reachable_bracketStateOfThree, of 1 bob "thirdPlaceOf (Some cid) None (Some cid)"]
    by auto
qed

section \<open>Zones of the bracket are kept by resolveMatch\<close>

lemma zone_cong:
  "roundIndex m' = roundIndex m \<Longrightarrow> matchIndex m' = matchIndex m \<Longrightarrow> zone K H1 H2 m' = zone K H1 H2 m"
  by (simp add: zone_def)

lemma int_div2_less: "(a div 2 < b) = (a < 2 * b)" for a b :: int
  by presburger

lemma zone_link:
  assumes "roundIndex m' = roundIndex m + 1" and "matchIndex m' = matchIndex m div 2"
    and "0 \<le> roundIndex m"
  shows "zone K H1 H2 m \<subseteq> zone K H1 H2 m'"
proof (cases "int K \<le> roundIndex m' + 1")
  case True
  then show ?thesis by (simp add: zone_def)
next
  case False
  obtain r where r: "roundIndex m = int r" using assms(3) by (metis nat_0_le)
  have less: "r + 3 \<le> K" using False assms(1) r by simp
  then have e: "K - 2 - r = Suc (K - 2 - Suc r)" by simp
  have "(matchIndex m div 2 < 2 ^ (K - 2 - Suc r)) = (matchIndex m < 2 ^ (K - 2 - r))"
    unfolding e by (simp add: int_div2_less)
  then show ?thesis using False assms(1,2) r less
    by (simp add: zone_def nat_add_distrib)
qed


lemma list_all2_mem2:
  assumes "list_all2 R xs ys" and "y \<in> set ys"
  shows "\<exists>x \<in> set xs. R x y"
proof -
  from assms(2) obtain j where j: "j < length ys" "ys ! j = y" by (auto simp: in_set_conv_nth)
  have "R (xs ! j) y" using list_all2_nthD2[OF assms(1) j(1)] j(2) by simp
  moreover have "xs ! j \<in> set xs" using j(1) list_all2_lengthD[OF assms(1)] by simp
  ultimately show ?thesis by blast
qed

lemma zonedD_length: "zoned K H1 H2 b \<Longrightarrow> length b = K"
  by (simp add: zoned_def)

lemma zonedD_round: "zoned K H1 H2 b \<Longrightarrow> i < K \<Longrightarrow> m \<in> set (b ! i) \<Longrightarrow> roundIndex m = int i"
  by (simp add: zoned_def)

lemma zonedD_slot:
  "zoned K H1 H2 b \<Longrightarrow> m \<in> set (concat b) \<Longrightarrow> p \<in> slotsOf m \<Longrightarrow> seed p \<in> zone K H1 H2 m"
  unfolding zoned_def by blast

lemma zonedD_link:
  "zoned K H1 H2 b \<Longrightarrow> m \<in> set (concat b) \<Longrightarrow> m' \<in> set (concat b) \<Longrightarrow>
   nextMatchId m = Some (m_id m') \<Longrightarrow> zone K H1 H2 m \<subseteq> zone K H1 H2 m'"
  unfolding zoned_def by blast

lemma zoned_step:
  assumes z: "zoned K H1 H2 b"
    and rel: "list_all2 (list_all2 (stepRel w nxt)) b b'"
    and enter: "\<And>nid. nxt = Some nid \<Longrightarrow>
                  \<exists>mu \<in> set (concat b). nextMatchId mu = Some nid \<and> seed w \<in> zone K H1 H2 mu"
  shows "zoned K H1 H2 b'"
proof -
  have len: "length b' = K" using zonedD_length[OF z] nested_rel_length[OF rel] by simp
  have pre: "\<exists>m \<in> set (concat b). stepRel w nxt m m'" if "m' \<in> set (concat b')" for m'
    using nested_rel_mem[OF rel that] .
  have zoneq: "zone K H1 H2 m' = zone K H1 H2 m" if "stepRel w nxt m m'" for m m'
    using that by (intro zone_cong) (simp_all add: stepRel_def)
  have rounds: "\<forall>i<K. \<forall>m'\<in>set (b' ! i). roundIndex m' = int i"
  proof (intro allI impI ballI)
    fix i m' assume i: "i < K" and m': "m' \<in> set (b' ! i)"
    have "list_all2 (stepRel w nxt) (b ! i) (b' ! i)"
      using nested_rel_nth[OF rel, of i] i zonedD_length[OF z] by simp
    from list_all2_mem2[OF this m'] obtain m where m: "m \<in> set (b ! i)" "stepRel w nxt m m'"
      by blast
    then show "roundIndex m' = int i" using zonedD_round[OF z i m(1)] by (simp add: stepRel_def)
  qed
  have slots: "\<forall>m'\<in>set (concat b'). \<forall>p\<in>slotsOf m'. seed p \<in> zone K H1 H2 m'"
  proof (intro ballI)
    fix m' p assume m': "m' \<in> set (concat b')" and p: "p \<in> slotsOf m'"
    obtain m where m: "m \<in> set (concat b)" "stepRel w nxt m m'" using pre[OF m'] by blast
    have "p \<in> slotsOf m \<or> (p = w \<and> Some (m_id m) = nxt)"
      using m(2) p by (auto simp: stepRel_def split: if_splits)
    then show "seed p \<in> zone K H1 H2 m'"
    proof
      assume "p \<in> slotsOf m"
      then show ?thesis using zonedD_slot[OF z m(1)] zoneq[OF m(2)] by simp
    next
      assume pw: "p = w \<and> Some (m_id m) = nxt"
      then obtain mu where mu: "mu \<in> set (concat b)" "nextMatchId mu = Some (m_id m)"
        "seed w \<in> zone K H1 H2 mu" using enter[of "m_id m"] by auto
      have "zone K H1 H2 mu \<subseteq> zone K H1 H2 m"
        using zonedD_link[OF z mu(1) m(1) mu(2)] .
      then show ?thesis using mu(3) pw zoneq[OF m(2)] by auto
    qed
  qed
  have links: "\<forall>m1'\<in>set (concat b'). \<forall>m2'\<in>set (concat b').
      nextMatchId m1' = Some (m_id m2') \<longrightarrow> zone K H1 H2 m1' \<subseteq> zone K H1 H2 m2'"
  proof (intro ballI impI)
    fix m1' m2' assume m1': "m1' \<in> set (concat b')" and m2': "m2' \<in> set (concat b')"
      and nx: "nextMatchId m1' = Some (m_id m2')"
    obtain m1 where m1: "m1 \<in> set (concat b)" "stepRel w nxt m1 m1'" using pre[OF m1'] by blast
    obtain m2 where m2: "m2 \<in> set (concat b)" "stepRel w nxt m2 m2'" using pre[OF m2'] by blast
    have "nextMatchId m1 = Some (m_id m2)" using nx m1(2) m2(2) by (simp add: stepRel_def)
    then have "zone K H1 H2 m1 \<subseteq> zone K H1 H2 m2"
      using zonedD_link[OF z m1(1) m2(1)] by simp
    then show "zone K H1 H2 m1' \<subseteq> zone K H1 H2 m2'"
      using zoneq[OF m1(2)] zoneq[OF m2(2)] by simp
  qed
  show ?thesis unfolding zoned_def using len rounds slots links by (intro conjI)
qed

lemma zoned_resolveMatch:
  assumes z: "zoned K H1 H2 b"
    and inSlot: "\<And>m. findInBracket matchId b = Some m \<Longrightarrow> w \<in> slotsOf m"
  shows "zoned K H1 H2 (resolveMatch b matchId w)"
proof (rule zoned_step[OF z resolveMatch_rel])
  fix nid assume "resolveNext b matchId = Some nid"
  then obtain mu where mu: "findInBracket matchId b = Some mu" "nextMatchId mu = Some nid"
    by (auto simp: resolveNext_def split: option.splits if_splits)
  have mem: "mu \<in> set (concat b)" using mu(1) by (rule findInBracket_mem)
  have "w \<in> slotsOf mu" using inSlot mu(1) by blast
  then have "seed w \<in> zone K H1 H2 mu" using zonedD_slot[OF z mem] by simp
  then show "\<exists>mu \<in> set (concat b). nextMatchId mu = Some nid \<and> seed w \<in> zone K H1 H2 mu"
    using mem mu(2) by blast
qed

lemma zoned_handleSetWinner:
  assumes "zoned K H1 H2 (bracket s)" and "isSlotParticipant s matchId w"
  shows "zoned K H1 H2 (bracket (handleSetWinner s matchId w))"
proof (cases "isThirdPlaceId s matchId")
  case True
  then show ?thesis using assms(1) by (simp add: bracket_handleSetWinner)
next
  case False
  then have target: "targetMatch s matchId = findInBracket matchId (bracket s)"
    by (simp add: targetMatch_def isThirdPlaceId_def split: option.splits)
  have "zoned K H1 H2 (resolveMatch (bracket s) matchId w)"
  proof (rule zoned_resolveMatch[OF assms(1)])
    fix m assume "findInBracket matchId (bracket s) = Some m"
    then show "w \<in> slotsOf m"
      using assms(2) target by (auto simp: isSlotParticipant_def slotsOf_def)
  qed
  then show ?thesis using False by (simp add: bracket_handleSetWinner)
qed

section \<open>The bracket built by handleStartBracket is zoned\<close>

lemma nth_makeRound: "j < n \<Longrightarrow> makeRound c r n prev ! j = laterRoundMatch c r prev j"
  by (simp add: makeRound_def)

lemma laterRoundMatch_fields [simp]:
  "m_id (laterRoundMatch c r prev j) = c + int j"
  "roundIndex (laterRoundMatch c r prev j) = r"
  "matchIndex (laterRoundMatch c r prev j) = int j"
  "winner (laterRoundMatch c r prev j) = None"
  "nextMatchId (laterRoundMatch c r prev j) = None"
  by (simp_all add: laterRoundMatch_def split: prod.splits)

lemma slotsOf_laterRoundMatch:
  "slotsOf (laterRoundMatch c r prev j)
     \<subseteq> set_option (winnerAt prev (j * 2)) \<union> set_option (winnerAt prev (j * 2 + 1))"
  by (auto simp: slotsOf_def laterRoundMatch_def orderBySeed_def split: prod.splits option.splits if_splits)

lemma winnerAt_SomeD: "winnerAt prev i = Some p \<Longrightarrow> i < length prev \<and> winner (prev ! i) = Some p"
  by (auto simp: winnerAt_def nthOpt_def split: if_splits)

lemma prevOK_makeRound:
  assumes ok: "prevOK K H1 H2 r c (Suc left) prev" and r: "1 \<le> r"
  shows "prevOK K H1 H2 (r + 1) (c + int (2 ^ left)) left (makeRound c r (2 ^ left) prev)"
proof -
  let ?cur = "makeRound c r (2 ^ left) prev"
  have len: "length prev = 2 ^ Suc left" using ok by (simp add: prevOK_def)
  have fields: "\<forall>j<2 ^ left. roundIndex (?cur ! j) = r + 1 - 1 \<and> matchIndex (?cur ! j) = int j
             \<and> m_id (?cur ! j) = c + int (2 ^ left) - int (2 ^ left) + int j \<and> nextMatchId (?cur ! j) = None"
    by (simp add: nth_makeRound)
  have zn: "\<forall>m\<in>set ?cur. \<forall>p\<in>slotsOf m \<union> set_option (winner m). seed p \<in> zone K H1 H2 m"
  proof (intro ballI)
    fix m p assume m: "m \<in> set ?cur" and p: "p \<in> slotsOf m \<union> set_option (winner m)"
    from m obtain j where j: "j < 2 ^ left" "m = laterRoundMatch c r prev j"
      by (auto simp: in_set_conv_nth nth_makeRound)
    have "p \<in> slotsOf m" using p j(2) by simp
    then have "p \<in> set_option (winnerAt prev (j * 2)) \<union> set_option (winnerAt prev (j * 2 + 1))"
      using slotsOf_laterRoundMatch j(2) by blast
    then obtain i where i: "i = j * 2 \<or> i = j * 2 + 1" "winnerAt prev i = Some p" by auto
    have il: "i < 2 ^ Suc left" using winnerAt_SomeD[OF i(2)] len by simp
    have w: "winner (prev ! i) = Some p" using winnerAt_SomeD[OF i(2)] by simp
    have mem: "prev ! i \<in> set prev" using il len by simp
    have "seed p \<in> zone K H1 H2 (prev ! i)"
      using ok mem w unfolding prevOK_def by auto
    moreover have "zone K H1 H2 (prev ! i) \<subseteq> zone K H1 H2 m"
    proof (rule zone_link)
      show "roundIndex m = roundIndex (prev ! i) + 1"
        using ok il j(2) by (simp add: prevOK_def)
      show "matchIndex m = matchIndex (prev ! i) div 2"
        using ok il j(2) i(1) by (auto simp: prevOK_def)
      show "0 \<le> roundIndex (prev ! i)"
        using ok il r by (simp add: prevOK_def)
    qed
    ultimately show "seed p \<in> zone K H1 H2 m" by blast
  qed
  show ?thesis unfolding prevOK_def using fields zn by simp
qed


lemma linkedRound_mem:
  assumes "m \<in> set (linkedRound c prev)"
  shows "\<exists>j<length prev. m = (prev ! j)\<lparr>nextMatchId := Some (c + int (j div 2))\<rparr>"
  using assms by (auto simp: in_set_conv_nth nth_linkedRound)

lemma slotsOf_nextMatchId_update [simp]: "slotsOf (m\<lparr>nextMatchId := x\<rparr>) = slotsOf m"
  by (simp add: slotsOf_def)

lemma zone_nextMatchId_update [simp]: "zone K H1 H2 (m\<lparr>nextMatchId := x\<rparr>) = zone K H1 H2 m"
  by (simp add: zone_def)

lemma rounds_builtOK:
  "prevOK K H1 H2 r c left prev \<Longrightarrow> 1 \<le> r \<Longrightarrow> builtOK K H1 H2 r c left (rounds left r c prev)"
proof (induction left arbitrary: r c prev)
  case 0
  have len: "length prev = 1" using 0(1) by (simp add: prevOK_def)
  then obtain m0 where prev: "prev = [m0]" by (cases prev) auto
  have f: "roundIndex m0 = r - 1" "matchIndex m0 = 0" "m_id m0 = c - 1" "nextMatchId m0 = None"
    using 0(1) unfolding prevOK_def prev by auto
  have z: "\<forall>p\<in>slotsOf m0. seed p \<in> zone K H1 H2 m0"
    using 0(1) unfolding prevOK_def prev by auto
  show ?case unfolding builtOK_def using f z by (simp add: prev)
next
  case (Suc left)
  let ?L = "linkedRound c prev"
  let ?cur = "makeRound c r (2 ^ left) prev"
  let ?c' = "c + int (2 ^ left)"
  let ?b' = "rounds left (r + 1) ?c' ?cur"
  have ok: "prevOK K H1 H2 r c (Suc left) prev" by fact
  have len: "length prev = 2 ^ Suc left" using ok by (simp add: prevOK_def)
  have IH: "builtOK K H1 H2 (r + 1) ?c' left ?b'"
    using Suc.IH[OF prevOK_makeRound[OF ok Suc.prems(2)]] Suc.prems(2) by simp
  have L: "\<exists>j<2 ^ Suc left. roundIndex m = r - 1 \<and> matchIndex m = int j
              \<and> m_id m = c - int (2 ^ Suc left) + int j \<and> nextMatchId m = Some (c + int (j div 2))
              \<and> (\<forall>p\<in>slotsOf m. seed p \<in> zone K H1 H2 m) \<and> m_id m < c"
    if "m \<in> set ?L" for m
  proof -
    from linkedRound_mem[OF that] obtain j where j: "j < length prev"
      "m = (prev ! j)\<lparr>nextMatchId := Some (c + int (j div 2))\<rparr>" by blast
    have jl: "j < 2 ^ Suc left" using j(1) len by simp
    have "prev ! j \<in> set prev" using j(1) by simp
    then have "\<forall>p\<in>slotsOf (prev ! j). seed p \<in> zone K H1 H2 (prev ! j)"
      using ok unfolding prevOK_def by blast
    moreover have "roundIndex (prev ! j) = r - 1 \<and> matchIndex (prev ! j) = int j
        \<and> m_id (prev ! j) = c - int (2 ^ Suc left) + int j"
      using ok jl unfolding prevOK_def by blast
    moreover have "int j < int (2 ^ Suc left)" using jl by (simp only: of_nat_less_iff)
    ultimately show ?thesis using jl j(2) by (intro exI[of _ j]) simp
  qed
  have B1: "\<forall>i\<le>left. \<forall>m\<in>set (?b' ! i). roundIndex m = r + int i"
    using IH unfolding builtOK_def by simp
  have B2: "\<forall>m\<in>set (concat ?b'). \<forall>p\<in>slotsOf m. seed p \<in> zone K H1 H2 m"
    using IH unfolding builtOK_def by blast
  have B3: "\<forall>m\<in>set (concat ?b'). \<forall>m'\<in>set (concat ?b').
            nextMatchId m = Some (m_id m') \<longrightarrow>
              roundIndex m' = roundIndex m + 1 \<and> matchIndex m' = matchIndex m div 2"
    using IH unfolding builtOK_def by blast
  have B4: "\<forall>m\<in>set (concat ?b'). c \<le> m_id m \<and> (\<forall>x. nextMatchId m = Some x \<longrightarrow> ?c' \<le> x)"
    using IH unfolding builtOK_def by simp
  have B5: "\<forall>m\<in>set (concat ?b'). m_id m < ?c' \<longrightarrow>
            (\<exists>j<2 ^ left. m_id m = c + int j \<and> matchIndex m = int j \<and> roundIndex m = r)"
    using IH unfolding builtOK_def by simp
  have split: "set (concat (rounds (Suc left) r c prev)) = set ?L \<union> set (concat ?b')"
    by simp
  have pow: "int (2 ^ Suc left) = 2 * int (2 ^ left)" by simp
  have C1: "\<forall>i\<le>Suc left. \<forall>m\<in>set (rounds (Suc left) r c prev ! i). roundIndex m = r - 1 + int i"
  proof (intro allI impI ballI)
    fix i m assume i: "i \<le> Suc left" and m: "m \<in> set (rounds (Suc left) r c prev ! i)"
    show "roundIndex m = r - 1 + int i"
    proof (cases i)
      case 0
      then show ?thesis using m L[of m] by auto
    next
      case (Suc i')
      then show ?thesis using m i B1 by auto
    qed
  qed
  have C2: "\<forall>m\<in>set (concat (rounds (Suc left) r c prev)). \<forall>p\<in>slotsOf m. seed p \<in> zone K H1 H2 m"
    unfolding split using L B2 by blast
  have C3: "\<forall>m\<in>set (concat (rounds (Suc left) r c prev)). \<forall>m'\<in>set (concat (rounds (Suc left) r c prev)).
            nextMatchId m = Some (m_id m') \<longrightarrow>
              roundIndex m' = roundIndex m + 1 \<and> matchIndex m' = matchIndex m div 2"
  proof (intro ballI impI)
    fix m m'
    assume m: "m \<in> set (concat (rounds (Suc left) r c prev))"
      and m': "m' \<in> set (concat (rounds (Suc left) r c prev))"
      and nx: "nextMatchId m = Some (m_id m')"
    consider (LL) "m \<in> set ?L" "m' \<in> set ?L" | (LB) "m \<in> set ?L" "m' \<in> set (concat ?b')"
      | (BL) "m \<in> set (concat ?b')" "m' \<in> set ?L" | (BB) "m \<in> set (concat ?b')" "m' \<in> set (concat ?b')"
      using m m' unfolding split by blast
    then show "roundIndex m' = roundIndex m + 1 \<and> matchIndex m' = matchIndex m div 2"
    proof cases
      case LL
      from L[OF LL(1)] obtain j where j: "j < 2 ^ Suc left" "nextMatchId m = Some (c + int (j div 2))" by blast
      have "m_id m' < c" using L[OF LL(2)] by blast
      moreover have "c \<le> m_id m'" using nx j(2) by simp
      ultimately show ?thesis by simp
    next
      case LB
      from L[OF LB(1)] obtain j where j: "j < 2 ^ Suc left" "roundIndex m = r - 1" "matchIndex m = int j"
        "nextMatchId m = Some (c + int (j div 2))" by blast
      have id': "m_id m' = c + int (j div 2)" using nx j(4) by simp
      have "j div 2 < 2 ^ left" using j(1) by simp
      then have "int (j div 2) < int (2 ^ left)" by (simp only: of_nat_less_iff)
      then have "m_id m' < ?c'" using id' by simp
      then obtain j' where j': "m_id m' = c + int j'" "matchIndex m' = int j'" "roundIndex m' = r"
        using B5 LB(2) by blast
      have "j' = j div 2" using id' j'(1) by simp
      then show ?thesis using j j' by (simp add: zdiv_int)
    next
      case BL
      have "m_id m' < c" using L[OF BL(2)] by blast
      moreover have "?c' \<le> m_id m'" using B4 BL(1) nx by blast
      ultimately show ?thesis by simp
    next
      case BB
      then show ?thesis using B3 nx by blast
    qed
  qed
  have C4: "\<forall>m\<in>set (concat (rounds (Suc left) r c prev)).
      c - int (2 ^ Suc left) \<le> m_id m \<and> (\<forall>x. nextMatchId m = Some x \<longrightarrow> c \<le> x)"
  proof (intro ballI)
    fix m assume "m \<in> set (concat (rounds (Suc left) r c prev))"
    then consider "m \<in> set ?L" | "m \<in> set (concat ?b')" unfolding split by blast
    then show "c - int (2 ^ Suc left) \<le> m_id m \<and> (\<forall>x. nextMatchId m = Some x \<longrightarrow> c \<le> x)"
    proof cases
      case 1
      from L[OF 1] show ?thesis by auto
    next
      case 2
      then have b4: "c \<le> m_id m" "\<forall>x. nextMatchId m = Some x \<longrightarrow> ?c' \<le> x" using B4 by blast+
      have pos: "(0::int) \<le> 2 ^ left" by simp
      have e: "int (2 ^ Suc left) = 2 * 2 ^ left" by simp
      have "c - int (2 ^ Suc left) \<le> m_id m" unfolding e using b4(1) pos by linarith
      moreover have "\<forall>x. nextMatchId m = Some x \<longrightarrow> c \<le> x"
      proof (intro allI impI)
        fix x assume "nextMatchId m = Some x"
        then have "?c' \<le> x" using b4(2) by blast
        then have "c + 2 ^ left \<le> x" by simp
        then show "c \<le> x" using pos by linarith
      qed
      ultimately show ?thesis by blast
    qed
  qed
  have C5: "\<forall>m\<in>set (concat (rounds (Suc left) r c prev)). m_id m < c \<longrightarrow>
            (\<exists>j<2 ^ Suc left. m_id m = c - int (2 ^ Suc left) + int j \<and> matchIndex m = int j
                \<and> roundIndex m = r - 1)"
  proof (intro ballI impI)
    fix m assume m: "m \<in> set (concat (rounds (Suc left) r c prev))" and lt: "m_id m < c"
    have "m \<notin> set (concat ?b')"
    proof
      assume "m \<in> set (concat ?b')"
      then have "c \<le> m_id m" using B4 by blast
      then show False using lt by simp
    qed
    then have "m \<in> set ?L" using m unfolding split by blast
    from L[OF this] show "\<exists>j<2 ^ Suc left. m_id m = c - int (2 ^ Suc left) + int j \<and> matchIndex m = int j
                \<and> roundIndex m = r - 1" by blast
  qed
  show ?case unfolding builtOK_def using C1 C2 C3 C4 C5 by (intro conjI)
qed


lemma nth_firstRoundFrom:
  "2 * j + 1 < length xs \<Longrightarrow>
   firstRoundFrom pm c xs ! j = firstRoundMatch (c + int j) (pm (xs ! (2 * j))) (pm (xs ! (2 * j + 1)))"
proof (induction pm c xs arbitrary: j rule: firstRoundFrom.induct)
  case (1 pm k)
  then show ?case by simp
next
  case (2 pm k a)
  then show ?case by simp
next
  case (3 pm k a b rest)
  show ?case
  proof (cases j)
    case 0
    then show ?thesis by simp
  next
    case (Suc j')
    then have "2 * j' + 1 < length rest" using 3(2) by simp
    from 3(1)[OF this] show ?thesis using Suc by (simp add: add.commute add.left_commute)
  qed
qed

lemma firstRoundMatch_fields [simp]:
  "m_id (firstRoundMatch k p1 p2) = k"
  "roundIndex (firstRoundMatch k p1 p2) = 0"
  "matchIndex (firstRoundMatch k p1 p2) = k"
  "nextMatchId (firstRoundMatch k p1 p2) = None"
  by (simp_all add: firstRoundMatch_def)

lemma slots_firstRoundMatch:
  "slotsOf (firstRoundMatch k p1 p2) \<union> set_option (winner (firstRoundMatch k p1 p2))
     = set_option p1 \<union> set_option p2"
  by (auto simp: slotsOf_def firstRoundMatch_def split: option.splits)

lemma nth_in_take: "i < n \<Longrightarrow> i < length xs \<Longrightarrow> xs ! i \<in> set (take n xs)"
  by (metis in_set_conv_nth length_take min_less_iff_conj nth_take)

lemma nth_in_drop: "n \<le> i \<Longrightarrow> i < length xs \<Longrightarrow> xs ! i \<in> set (drop n xs)"
proof -
  assume a: "n \<le> i" "i < length xs"
  then have "drop n xs ! (i - n) = xs ! i" by simp
  moreover have "i - n < length (drop n xs)" using a by simp
  ultimately show ?thesis by (metis nth_mem)
qed

lemma prevOK_firstRound:
  "prevOK (Suc k) (set (take (2 ^ k) (seedOrder (Suc k)))) (set (drop (2 ^ k) (seedOrder (Suc k))))
     1 (int (2 ^ k)) k (firstRoundFrom (participantMapOf q) 0 (seedOrder (Suc k)))"
proof -
  let ?order = "seedOrder (Suc k)"
  let ?pm = "participantMapOf q"
  let ?first = "firstRoundFrom ?pm 0 ?order"
  let ?H1 = "set (take (2 ^ k) ?order)"
  let ?H2 = "set (drop (2 ^ k) ?order)"
  have len: "length ?first = 2 ^ k" by simp
  have nth: "?first ! j = firstRoundMatch (int j) (?pm (?order ! (2 * j))) (?pm (?order ! (2 * j + 1)))"
    if "j < 2 ^ k" for j
    using nth_firstRoundFrom[of j ?order ?pm 0] that by simp
  have fields: "\<forall>j<2 ^ k. roundIndex (?first ! j) = 1 - 1 \<and> matchIndex (?first ! j) = int j
             \<and> m_id (?first ! j) = int (2 ^ k) - int (2 ^ k) + int j \<and> nextMatchId (?first ! j) = None"
    by (simp add: nth)
  have zn: "\<forall>m\<in>set ?first. \<forall>p\<in>slotsOf m \<union> set_option (winner m). seed p \<in> zone (Suc k) ?H1 ?H2 m"
  proof (intro ballI)
    fix m p assume m: "m \<in> set ?first" and p: "p \<in> slotsOf m \<union> set_option (winner m)"
    from m obtain j where j: "j < 2 ^ k" "m = ?first ! j"
      using len by (metis in_set_conv_nth)
    have m': "m = firstRoundMatch (int j) (?pm (?order ! (2 * j))) (?pm (?order ! (2 * j + 1)))"
      using j nth by simp
    have "p \<in> set_option (?pm (?order ! (2 * j))) \<union> set_option (?pm (?order ! (2 * j + 1)))"
      using p unfolding m' slots_firstRoundMatch .
    then have "seed p = ?order ! (2 * j) \<or> seed p = ?order ! (2 * j + 1)"
      by (auto dest: participantMapOf_seed)
    then obtain i where i: "i = 2 * j \<or> i = 2 * j + 1" "seed p = ?order ! i" by blast
    have il: "i < length ?order" using i(1) j(1) by auto
    show "seed p \<in> zone (Suc k) ?H1 ?H2 m"
    proof (cases k)
      case 0
      then show ?thesis by (simp add: zone_def m')
    next
      case (Suc k')
      show ?thesis
      proof (cases "j < 2 ^ k'")
        case True
        then have "i < 2 ^ k" using i(1) Suc by auto
        then have "?order ! i \<in> ?H1" using il by (rule nth_in_take)
        moreover have "zone (Suc k) ?H1 ?H2 m = ?H1"
          using True Suc by (simp add: zone_def m' of_nat_less_iff[symmetric] del: of_nat_less_iff)
        ultimately show ?thesis using i(2) by simp
      next
        case False
        then have "2 ^ k \<le> i" using i(1) Suc by auto
        then have "?order ! i \<in> ?H2" using il by (rule nth_in_drop)
        moreover have "zone (Suc k) ?H1 ?H2 m = ?H2"
          using False Suc by (simp add: zone_def m' of_nat_less_iff[symmetric] del: of_nat_less_iff)
        ultimately show ?thesis using i(2) by simp
      qed
    qed
  qed
  show ?thesis unfolding prevOK_def using len fields zn by (intro conjI)
qed


lemma seedOrder_Suc: "seedOrder (Suc k) = nextSeeds (seedOrder k)"
  by (simp add: seedOrder_def)

lemma take_pairs:
  "take (2 * n) (concat (map (\<lambda>s. [s, g s]) xs)) = concat (map (\<lambda>s. [s, g s]) (take n xs))"
proof (induction xs arbitrary: n)
  case Nil
  then show ?case by simp
next
  case (Cons x xs)
  then show ?case by (cases n) simp_all
qed

lemma drop_pairs:
  "drop (2 * n) (concat (map (\<lambda>s. [s, g s]) xs)) = concat (map (\<lambda>s. [s, g s]) (drop n xs))"
proof (induction xs arbitrary: n)
  case Nil
  then show ?case by simp
next
  case (Cons x xs)
  then show ?case by (cases n) simp_all
qed

lemma set_pairs: "set (concat (map (\<lambda>s. [s, g s]) xs)) = set xs \<union> g ` set xs"
  by (induction xs) auto

lemma seedOrder_bounds: "s \<in> set (seedOrder k) \<Longrightarrow> 1 \<le> s \<and> s \<le> 2 ^ k"
proof (induction k arbitrary: s)
  case 0
  then show ?case by (simp add: seedOrder_def)
next
  case (Suc k)
  from Suc.prems have "s \<in> set (seedOrder k) \<or> (\<exists>t \<in> set (seedOrder k). s = 2 * 2 ^ k + 1 - t)"
    unfolding seedOrder_Suc nextSeeds_def set_pairs by (auto simp: mult.commute)
  then show ?case
  proof
    assume "s \<in> set (seedOrder k)"
    then have "1 \<le> s \<and> s \<le> 2 ^ k" by (rule Suc.IH)
    moreover have "(0::int) \<le> 2 ^ k" by simp
    ultimately show ?thesis by simp
  next
    assume "\<exists>t \<in> set (seedOrder k). s = 2 * 2 ^ k + 1 - t"
    then obtain t where t: "t \<in> set (seedOrder k)" "s = 2 * 2 ^ k + 1 - t" by blast
    have "1 \<le> t \<and> t \<le> 2 ^ k" using t(1) by (rule Suc.IH)
    then show ?thesis using t(2) by simp
  qed
qed

lemma seeds_apart:
  "2 \<notin> set (take (2 ^ k) (seedOrder (Suc k))) \<and> 1 \<notin> set (drop (2 ^ k) (seedOrder (Suc k)))"
proof (induction k)
  case 0
  show ?case by (simp add: seedOrder_def nextSeeds_def)
next
  case (Suc k)
  let ?X = "seedOrder (Suc k)"
  let ?g = "\<lambda>s. int (length ?X * 2) + 1 - s"
  have nx: "seedOrder (Suc (Suc k)) = concat (map (\<lambda>s. [s, ?g s]) ?X)"
    by (subst seedOrder_Suc) (simp add: nextSeeds_def)
  have g: "?g s = 4 * 2 ^ k + 1 - s" for s by simp
  have one: "(1::int) \<le> 2 ^ k" by simp
  have tk: "set (take (2 ^ Suc k) (seedOrder (Suc (Suc k)))) = set (take (2 ^ k) ?X) \<union> ?g ` set (take (2 ^ k) ?X)"
  proof -
    have "take (2 ^ Suc k) (concat (map (\<lambda>s. [s, ?g s]) ?X)) = concat (map (\<lambda>s. [s, ?g s]) (take (2 ^ k) ?X))"
      using take_pairs[of "2 ^ k" ?g ?X] by (simp only: power_Suc)
    then show ?thesis unfolding nx by (simp only: set_pairs)
  qed
  have dr: "set (drop (2 ^ Suc k) (seedOrder (Suc (Suc k)))) = set (drop (2 ^ k) ?X) \<union> ?g ` set (drop (2 ^ k) ?X)"
  proof -
    have "drop (2 ^ Suc k) (concat (map (\<lambda>s. [s, ?g s]) ?X)) = concat (map (\<lambda>s. [s, ?g s]) (drop (2 ^ k) ?X))"
      using drop_pairs[of "2 ^ k" ?g ?X] by (simp only: power_Suc)
    then show ?thesis unfolding nx by (simp only: set_pairs)
  qed
  have bound: "s \<le> 2 * 2 ^ k" if "s \<in> set ?X" for s
    using seedOrder_bounds[OF that] by simp
  have "2 \<notin> set (take (2 ^ Suc k) (seedOrder (Suc (Suc k))))"
  proof
    assume "2 \<in> set (take (2 ^ Suc k) (seedOrder (Suc (Suc k))))"
    then have "2 \<in> ?g ` set (take (2 ^ k) ?X)" using Suc unfolding tk by blast
    then obtain s where s: "s \<in> set (take (2 ^ k) ?X)" "2 = ?g s" by blast
    have "s \<le> 2 * 2 ^ k" using bound in_set_takeD[OF s(1)] by blast
    then show False using s(2) one unfolding g by linarith
  qed
  moreover have "1 \<notin> set (drop (2 ^ Suc k) (seedOrder (Suc (Suc k))))"
  proof
    assume "1 \<in> set (drop (2 ^ Suc k) (seedOrder (Suc (Suc k))))"
    then have "1 \<in> ?g ` set (drop (2 ^ k) ?X)" using Suc unfolding dr by blast
    then obtain s where s: "s \<in> set (drop (2 ^ k) ?X)" "1 = ?g s" by blast
    have "s \<le> 2 * 2 ^ k" using bound in_set_dropD[OF s(1)] by blast
    then show False using s(2) one unfolding g by linarith
  qed
  ultimately show ?case by blast
qed

lemma concat_mem_nth:
  assumes "m \<in> set (concat b)"
  shows "\<exists>i<length b. m \<in> set (b ! i)"
  using assms by (auto simp: in_set_conv_nth) blast

lemma zoned_builtBracket:
  assumes "2 \<le> length q"
  shows "\<exists>K H1 H2. 2 \<notin> H1 \<and> 1 \<notin> H2 \<and> zoned K H1 H2 (builtBracket q)"
proof -
  obtain k where k: "ceil_log2 (length q) = Suc k"
    using ceil_log2_pos[OF assms] by (cases "ceil_log2 (length q)") auto
  let ?H1 = "set (take (2 ^ k) (seedOrder (Suc k)))"
  let ?H2 = "set (drop (2 ^ k) (seedOrder (Suc k)))"
  let ?first = "firstRoundFrom (participantMapOf q) 0 (seedOrder (Suc k))"
  let ?b = "rounds k 1 (int (2 ^ k)) ?first"
  have b: "builtBracket q = ?b"
    by (simp add: builtBracket_def k Let_def del: power_Suc)
  have ok: "builtOK (Suc k) ?H1 ?H2 1 (int (2 ^ k)) k ?b"
    by (rule rounds_builtOK[OF prevOK_firstRound]) simp
  have R: "\<forall>i<Suc k. \<forall>m\<in>set (?b ! i). roundIndex m = int i"
    using ok unfolding builtOK_def by simp
  have S: "\<forall>m\<in>set (concat ?b). \<forall>p\<in>slotsOf m. seed p \<in> zone (Suc k) ?H1 ?H2 m"
    using ok unfolding builtOK_def by blast
  have Lk: "\<forall>m\<in>set (concat ?b). \<forall>m'\<in>set (concat ?b).
            nextMatchId m = Some (m_id m') \<longrightarrow>
              roundIndex m' = roundIndex m + 1 \<and> matchIndex m' = matchIndex m div 2"
    using ok unfolding builtOK_def by blast
  have Z: "\<forall>m\<in>set (concat ?b). \<forall>m'\<in>set (concat ?b).
            nextMatchId m = Some (m_id m') \<longrightarrow> zone (Suc k) ?H1 ?H2 m \<subseteq> zone (Suc k) ?H1 ?H2 m'"
  proof (intro ballI impI)
    fix m m' assume m: "m \<in> set (concat ?b)" and m': "m' \<in> set (concat ?b)"
      and nx: "nextMatchId m = Some (m_id m')"
    from concat_mem_nth[OF m] obtain i where "i < Suc k" "m \<in> set (?b ! i)" by auto
    then have nonneg: "0 \<le> roundIndex m" using R by simp
    have "roundIndex m' = roundIndex m + 1 \<and> matchIndex m' = matchIndex m div 2"
      using Lk m m' nx by blast
    then show "zone (Suc k) ?H1 ?H2 m \<subseteq> zone (Suc k) ?H1 ?H2 m'"
      using nonneg by (intro zone_link) simp_all
  qed
  have "zoned (Suc k) ?H1 ?H2 (builtBracket q)"
    unfolding zoned_def b using R S Z by simp
  then show ?thesis using seeds_apart[of k] by blast
qed

lemma reachable_seedsApart: "reachable s \<Longrightarrow> seedsApart s"
proof (induction rule: reachable.induct)
  case initial
  have "zoned 0 {} {} []" by (simp add: zoned_def)
  then show ?case unfolding seedsApart_def getInitialState_def by force
next
  case (startCompetition s)
  have "zoned 0 {} {} []" by (simp add: zoned_def)
  then show ?case unfolding seedsApart_def handleStartCompetition_def by force
next
  case (startBracket s ps a s')
  from handleStartBracket_cases[OF startBracket(3)] show ?case
  proof
    assume "a = Some InsufficientQualifiers \<and> s' = s"
    then show ?thesis using startBracket.IH by simp
  next
    assume built: "2 \<le> length (filter qualifies ps) \<and> a = None
      \<and> s' = s\<lparr>bracket := builtBracket (qualifiedParticipants ps), phase := BRACKET\<rparr>"
    then have "2 \<le> length (qualifiedParticipants ps)"
      by (simp add: length_qualifiedParticipants)
    from zoned_builtBracket[OF this] show ?thesis using built by (simp add: seedsApart_def)
  qed
next
  case (setWinner s matchId w)
  then obtain K H1 H2 where z: "2 \<notin> H1" "1 \<notin> H2" "zoned K H1 H2 (bracket s)"
    unfolding seedsApart_def by blast
  have "zoned K H1 H2 (bracket (handleSetWinner s matchId w))"
    using z(3) setWinner.hyps(3) by (rule zoned_handleSetWinner)
  then show ?case unfolding seedsApart_def using z(1,2) by blast
next
  case (returnToChampionship s)
  then show ?case by (simp add: seedsApart_def handleReturnToChampionship_def Let_def)
qed (simp_all add: seedsApart_def)

section \<open>Seeds 1 and 2 meet only in the final\<close>

text \<open>
  C7. In every state that the interface reaches (a bracket built by \<open>handleStartBracket\<close>
  from any number \<open>n \<ge> 2\<close> of qualifiers, after any sequence of results in which the
  winner of a match is one of its two participants), a match whose two slots hold the
  participants seeded 1 and 2 is the final, the sole match of the last round: the two are
  never paired in an earlier round, whoever wins the other matches.
\<close>

theorem seeds_one_and_two_meet_only_in_final:
  assumes "reachable s"
    and "m \<in> set (concat (bracket s))"
    and "participant1 m = Some a" and "participant2 m = Some b"
    and "seed a = 1 \<and> seed b = 2 \<or> seed a = 2 \<and> seed b = 1"
  shows "bracket s \<noteq> [] \<and> last (bracket s) = [m]"
proof -
  obtain K H1 H2 where z: "2 \<notin> H1" "1 \<notin> H2" "zoned K H1 H2 (bracket s)"
    using reachable_seedsApart[OF assms(1)] unfolding seedsApart_def by blast
  have wf: "wfShape (bracket s)"
    using reachable_thirdPlaceInv[OF assms(1)] by (simp add: thirdPlaceInv_def)
  have len: "length (bracket s) = K" using z(3) by (rule zonedD_length)
  have "a \<in> slotsOf m" "b \<in> slotsOf m" using assms(3,4) by (simp_all add: slotsOf_def)
  then have "seed a \<in> zone K H1 H2 m" "seed b \<in> zone K H1 H2 m"
    using zonedD_slot[OF z(3) assms(2)] by blast+
  then have both: "1 \<in> zone K H1 H2 m" "2 \<in> zone K H1 H2 m" using assms(5) by auto
  have final: "int K \<le> roundIndex m + 1"
  proof (rule ccontr)
    assume "\<not> int K \<le> roundIndex m + 1"
    then have "zone K H1 H2 m = H1 \<or> zone K H1 H2 m = H2" by (simp add: zone_def)
    then show False using both z(1,2) by auto
  qed
  from concat_mem_nth[OF assms(2)] obtain i where i: "i < K" "m \<in> set (bracket s ! i)"
    using len by auto
  have "roundIndex m = int i" using zonedD_round[OF z(3) i] .
  then have iK: "i = K - 1" using final i(1) by simp
  have ne: "bracket s \<noteq> []" using i(1) len by auto
  then have last: "last (bracket s) = bracket s ! (K - 1)" using len by (simp add: last_conv_nth)
  have "length (bracket s ! (K - 1)) = 2 ^ (length (bracket s) - 1 - (K - 1))"
    using wf i(1) len iK unfolding wfShape_def by simp
  then have "length (last (bracket s)) = 1" using last len by simp
  moreover have "m \<in> set (last (bracket s))" using i(2) iK last by simp
  ultimately have "last (bracket s) = [m]"
    by (cases "last (bracket s)") auto
  then show ?thesis using ne by simp
qed

text \<open>
  With four entrants, after both semifinals have been won by the higher seed, the final
  holds seeds 1 and 2.
\<close>

theorem seeds_one_and_two_meet_only_in_final_witness:
  "reachable semiFinalsPlayed
   \<and> finalMatchOf (bracket semiFinalsPlayed)
       = Some \<lparr>m_id = 2, roundIndex = 1, matchIndex = 0, participant1 = Some ann, participant2 = Some bob,
               winner = None, nextMatchId = None\<rparr>
   \<and> seed ann = 1 \<and> seed bob = 2
   \<and> last (bracket semiFinalsPlayed)
       = [\<lparr>m_id = 2, roundIndex = 1, matchIndex = 0, participant1 = Some ann, participant2 = Some bob,
            winner = None, nextMatchId = None\<rparr>]"
proof -
  let ?m = "\<lparr>m_id = 2, roundIndex = 1, matchIndex = 0, participant1 = Some ann, participant2 = Some bob,
               winner = None, nextMatchId = None\<rparr>"
  have mem: "?m \<in> set (concat (bracket semiFinalsPlayed))" by code_simp
  have fin: "finalMatchOf (bracket semiFinalsPlayed) = Some ?m" by code_simp
  have seeds: "seed ann = 1 \<and> seed bob = 2 \<or> seed ann = 2 \<and> seed bob = 1" by code_simp
  have s12: "seed ann = 1 \<and> seed bob = 2" by code_simp
  show ?thesis
    using seeds_one_and_two_meet_only_in_final [OF reachable_semiFinalsPlayed mem _ _ seeds] fin s12 reachable_semiFinalsPlayed
    by simp
qed

end
